theory Spec2Isabelle
  imports Main "HOL-Library.Word" "HOL-Library.Signed_Division" "HOL-Library.AList"
    "HOL-Library.Monad_Syntax"
begin

text \<open>
  The exporter polls the GPUs of a host through NVIDIA's management library and publishes
  the readings as Prometheus gauges. This theory embeds its two Go files: nvml.go, the cgo
  binding of the library, and nvidia_exporter.go, the Prometheus collector. The driver
  library and the Prometheus client library are not part of the repository; the driver is
  a parameter of the model, and of the client library the model keeps what the collector
  relies on. The unnamed third source file is an earlier revision of nvidia_exporter.go,
  with five metrics and two labels; the embedding follows nvidia_exporter.go.
\<close>

section \<open>The NVML binding (nvml.go)\<close>

subsection \<open>Machine types\<close>

text \<open>
  The exporter is built with cgo against the CUDA toolkit, on 64-bit Linux: Go's \<open>int\<close> and
  \<open>int64\<close> are 64-bit two's complement words, C's \<open>unsigned int\<close> is 32 bits wide and
  \<open>unsigned long long\<close> 64 bits. A device handle (\<open>C.nvmlDevice_t\<close>) is an opaque value.
\<close>

type_synonym c_uint = "32 word"
type_synonym c_ulonglong = "64 word"
type_synonym go_int = "64 word"
type_synonym int64 = "64 word"
type_synonym nvmlDevice_t = nat

text \<open>
  Go's integer quotient \<open>x / y\<close> truncates towards zero and wraps on overflow. Every
  divisor in this program is a non-zero constant, so the division panic does not arise.
\<close>

definition quo :: "go_int \<Rightarrow> go_int \<Rightarrow> go_int" where
  "quo x y = word_of_int (sint x sdiv sint y)"

text \<open>
  A driver call answers with a return code; \<open>NVML_ERROR c\<close> stands for every code other
  than \<open>NVML_SUCCESS\<close>.
\<close>

datatype nvmlReturn_t = NVML_SUCCESS | NVML_ERROR nat

record nvmlUtilization_t =
  util_gpu :: c_uint
  util_memory :: c_uint

record nvmlMemory_t =
  mem_total :: c_ulonglong
  mem_free :: c_ulonglong
  mem_used :: c_ulonglong

text \<open>
  The driver library as the binding sees it: each entry point takes a device handle and
  answers with a return code and the value it stored through its out-parameter.
  \<open>nvmlDeviceGetTemperature\<close> is the entry point at the sensor \<open>NVML_TEMPERATURE_GPU\<close>.
\<close>

record nvml_driver =
  nvmlDeviceGetUtilizationRates :: "nvmlDevice_t \<Rightarrow> nvmlReturn_t \<times> nvmlUtilization_t"
  nvmlDeviceGetTemperature :: "nvmlDevice_t \<Rightarrow> nvmlReturn_t \<times> c_uint"
  nvmlDeviceGetPowerUsage :: "nvmlDevice_t \<Rightarrow> nvmlReturn_t \<times> c_uint"
  nvmlDeviceGetFanSpeed :: "nvmlDevice_t \<Rightarrow> nvmlReturn_t \<times> c_uint"
  nvmlDeviceGetMemoryInfo :: "nvmlDevice_t \<Rightarrow> nvmlReturn_t \<times> nvmlMemory_t"

subsection \<open>Errors\<close>

text \<open>
  \<open>Errorf_nvml r\<close> is the value of \<open>fmt.Errorf("nvml: %s", ...)\<close> built from the driver's
  message for the return code \<open>r\<close>. A Go \<open>error\<close> result is an \<open>error option\<close>, \<open>None\<close>
  being \<open>nil\<close>.
\<close>

datatype error = errNoErrorString | errNoError | Errorf_nvml nvmlReturn_t

text \<open>
  In \<open>getGoError\<close> the named result \<open>err\<close> is still \<open>nil\<close> when the second test reads it.
\<close>

definition getGoError :: "nvmlReturn_t \<Rightarrow> error" where
  "getGoError result =
     (let err = (None :: error option) in
      if result = NVML_SUCCESS then errNoError
      else if err \<noteq> None then errNoErrorString
      else Errorf_nvml result)"

subsection \<open>Devices and their queries\<close>

record Device =
  DeviceName :: string
  DeviceUUID :: string
  Device_d :: nvmlDevice_t
  Device_i :: nat

record NVMLMemory =
  Free :: int64
  Total :: int64
  Used :: int64

definition callGetIntFunc ::
  "(nvmlDevice_t \<Rightarrow> nvmlReturn_t \<times> c_uint) \<Rightarrow> Device \<Rightarrow> go_int \<times> error option" where
  "callGetIntFunc f s =
     (case f (Device_d s) of (result, valC) \<Rightarrow>
        if result \<noteq> NVML_SUCCESS then (0, Some (getGoError result))
        else (ucast valC, None))"

definition GetUtilization :: "nvml_driver \<Rightarrow> Device \<Rightarrow> go_int \<times> go_int \<times> error option" where
  "GetUtilization C s =
     (case nvmlDeviceGetUtilizationRates C (Device_d s) of (result, utilRates) \<Rightarrow>
        if result \<noteq> NVML_SUCCESS then (0, 0, Some (getGoError result))
        else (ucast (util_gpu utilRates), ucast (util_memory utilRates), None))"

text \<open>The quotient is taken whether or not the call succeeded.\<close>

definition GetPowerUsage :: "nvml_driver \<Rightarrow> Device \<Rightarrow> go_int \<times> error option" where
  "GetPowerUsage C s =
     (case callGetIntFunc (nvmlDeviceGetPowerUsage C) s of (usage, err) \<Rightarrow>
        (quo usage 1000, err))"

text \<open>The result triple is \<open>(tempF, tempC, err)\<close>, in the order of the Go signature.\<close>

definition GetTemperature :: "nvml_driver \<Rightarrow> Device \<Rightarrow> go_int \<times> go_int \<times> error option" where
  "GetTemperature C s =
     (case nvmlDeviceGetTemperature C (Device_d s) of (result, tempc) \<Rightarrow>
        if result \<noteq> NVML_SUCCESS then (0, 0, Some (getGoError result))
        else (let tempC = ucast tempc;
                  tempF = quo (tempC * 9) 5 + 32
              in (tempF, tempC, None)))"

text \<open>
  nvml.go returns the \<open>NVMLMemory\<close> struct itself, the exporter reads its fields through
  a pointer; the fields read are the same.
\<close>

definition GetMemoryInfo :: "nvml_driver \<Rightarrow> Device \<Rightarrow> NVMLMemory \<times> error option" where
  "GetMemoryInfo C s =
     (case nvmlDeviceGetMemoryInfo C (Device_d s) of (result, res) \<Rightarrow>
        if result \<noteq> NVML_SUCCESS
        then (\<lparr>Free = 0, Total = 0, Used = 0\<rparr>, Some (getGoError result))
        else (\<lparr>Free = mem_free res, Total = mem_total res, Used = mem_used res\<rparr>, None))"

text \<open>
  Modelled from the spec: \<open>Device.GetFanSpeed\<close> is called by the exporter, and nvml.go as
  given does not define it. The spec lists it as
  \<open>Device.GetFanSpeed() \<rightarrow> (percent:int) | Error\<close>; it is taken to read the driver's fan
  speed through \<open>callGetIntFunc\<close>, as the binding's other integer property does.
\<close>

definition GetFanSpeed :: "nvml_driver \<Rightarrow> Device \<Rightarrow> go_int \<times> error option" where
  "GetFanSpeed C s = callGetIntFunc (nvmlDeviceGetFanSpeed C) s"

section \<open>The exporter (nvidia_exporter.go)\<close>

subsection \<open>The Prometheus client library, as far as the exporter uses it\<close>

text \<open>
  The definitions of this subsection state what the documentation of the client library
  says of the calls the exporter makes: how a fully qualified name is built, that a new
  gauge is 0 and a new vector empty, that \<open>Reset\<close> deletes the children of a vector, that
  \<open>WithLabelValues\<close> finds or creates the child of a tuple of label values, and that
  \<open>Collect\<close> and \<open>Describe\<close> send the children and the descriptor.
\<close>

text \<open>
  A gauge holds a \<open>float64\<close>. Every value the exporter stores is the conversion
  \<open>float64(n)\<close> of a Go integer \<open>n\<close> (the constants \<open>0\<close> and \<open>1\<close> included), so a gauge
  value is kept as that conversion, applied to the integer.
\<close>

datatype float64 = float64 go_int

record Desc =
  fqName :: string
  desc_help :: string
  variableLabels :: "string list"

record GaugeOpts =
  Namespace :: string
  Subsystem :: string
  Name :: string
  Help :: string

definition BuildFQName :: "string \<Rightarrow> string \<Rightarrow> string \<Rightarrow> string" where
  "BuildFQName namespace subsystem name =
     (if name = [] then []
      else if namespace \<noteq> [] \<and> subsystem \<noteq> [] then namespace @ ''_'' @ subsystem @ ''_'' @ name
      else if namespace \<noteq> [] then namespace @ ''_'' @ name
      else if subsystem \<noteq> [] then subsystem @ ''_'' @ name
      else name)"

record Gauge =
  gauge_desc :: Desc
  gauge_val :: float64

text \<open>
  A gauge vector keeps one child gauge per tuple of label values; \<open>children\<close> lists them
  with their values, each tuple at most once.
\<close>

record GaugeVec =
  vec_desc :: Desc
  children :: "(string list \<times> float64) list"

definition NewGauge :: "GaugeOpts \<Rightarrow> Gauge" where
  "NewGauge opts =
     \<lparr>gauge_desc = \<lparr>fqName = BuildFQName (Namespace opts) (Subsystem opts) (Name opts),
                     desc_help = Help opts, variableLabels = []\<rparr>,
      gauge_val = float64 0\<rparr>"

definition NewGaugeVec :: "GaugeOpts \<Rightarrow> string list \<Rightarrow> GaugeVec" where
  "NewGaugeVec opts labelNames =
     \<lparr>vec_desc = \<lparr>fqName = BuildFQName (Namespace opts) (Subsystem opts) (Name opts),
                   desc_help = Help opts, variableLabels = labelNames\<rparr>,
      children = []\<rparr>"

definition GaugeVec_Reset :: "GaugeVec \<Rightarrow> GaugeVec" where
  "GaugeVec_Reset vec = vec\<lparr>children := []\<rparr>"

text \<open>
  What travels on the channel of \<open>Collect\<close>: a sample with its descriptor, its label
  values and its value.
\<close>

datatype Metric = Metric Desc "string list" float64

definition Gauge_Collect :: "Gauge \<Rightarrow> Metric" where
  "Gauge_Collect g = Metric (gauge_desc g) [] (gauge_val g)"

text \<open>
  The library sends the children of a vector in no specified order; the model sends them
  in the order of \<open>children\<close>, and no theorem below depends on that order.
\<close>

definition GaugeVec_Collect :: "GaugeVec \<Rightarrow> Metric list" where
  "GaugeVec_Collect vec = map (\<lambda>(lvs, v). Metric (vec_desc vec) lvs v) (children vec)"

definition GaugeVec_Describe :: "GaugeVec \<Rightarrow> Desc list" where
  "GaugeVec_Describe vec = [vec_desc vec]"

subsection \<open>The metric catalog\<close>

record VecInfo =
  info_help :: string
  info_labels :: "string list"

definition DefaultNamespace :: string where
  "DefaultNamespace = ''nvml''"

text \<open>The map literal \<open>gaugeMetrics\<close>, entry by entry; its keys are distinct.\<close>

definition gaugeMetrics :: "(string \<times> VecInfo) list" where
  "gaugeMetrics =
     [(''power_watts'',
         \<lparr>info_help = ''Power Usage of an NVIDIA GPU in Watts'',
          info_labels = [''device_id'', ''device_uuid'', ''device_name'']\<rparr>),
      (''fan_speed'',
         \<lparr>info_help = ''Device Fan Speed in Percent of Maximum'',
          info_labels = [''device_id'', ''device_uuid'', ''device_name'']\<rparr>),
      (''gpu_percent'',
         \<lparr>info_help = ''Percent of GPU Utilized'',
          info_labels = [''device_id'', ''device_uuid'', ''device_name'']\<rparr>),
      (''memory_free'',
         \<lparr>info_help = ''Number of bytes free in the GPU Memory'',
          info_labels = [''device_id'', ''device_uuid'', ''device_name'']\<rparr>),
      (''memory_total'',
         \<lparr>info_help = ''Total bytes of the GPU's memory'',
          info_labels = [''device_id'', ''device_uuid'', ''device_name'']\<rparr>),
      (''memory_used'',
         \<lparr>info_help = ''Total number of bytes used in the GPU Memory'',
          info_labels = [''device_id'', ''device_uuid'', ''device_name'']\<rparr>),
      (''memory_percent'',
         \<lparr>info_help = ''Percent of GPU Memory Utilized'',
          info_labels = [''device_id'', ''device_uuid'', ''device_name'']\<rparr>),
      (''temperature_fahrenheit'',
         \<lparr>info_help = ''GPU Temperature in Fahrenheit'',
          info_labels = [''device_id'', ''device_uuid'', ''device_name'']\<rparr>),
      (''temperature_celsius'',
         \<lparr>info_help = ''GPU Temperature in Celsius'',
          info_labels = [''device_id'', ''device_uuid'', ''device_name'']\<rparr>)]"

subsection \<open>The exporter and its construction\<close>

text \<open>
  \<open>gauges\<close> maps a metric name to its vector. The Go map holds pointers to vectors that
  nothing else refers to, so a vector is updated by storing its new value under its name.
  The mutex is outside this sequential model.
\<close>

record Exporter =
  up :: Gauge
  gauges :: "string \<rightharpoonup> GaugeVec"
  devices :: "Device list"

text \<open>
  \<open>NewExporter\<close> takes what \<open>GetDevices()\<close> returned. The catalog's keys are distinct,
  so the order in which the range loop visits them does not show in the result.
\<close>

definition NewExporter :: "Device list \<times> error option \<Rightarrow> Exporter option \<times> error option" where
  "NewExporter getDevices =
     (case getDevices of (devs, err) \<Rightarrow>
        if err \<noteq> None then (None, err)
        else
          (Some (fold (\<lambda>(name, info) exp.
                         exp\<lparr>gauges := (gauges exp)(name \<mapsto>
                           NewGaugeVec \<lparr>Namespace = DefaultNamespace, Subsystem = [],
                                        Name = name, Help = info_help info\<rparr> (info_labels info))\<rparr>)
                   gaugeMetrics
                   \<lparr>up = NewGauge \<lparr>Namespace = DefaultNamespace, Subsystem = [], Name = ''up'',
                                    Help = ''Were the NVML queries successful?''\<rparr>,
                    gauges = Map.empty,
                    devices = devs\<rparr>),
           None))"

subsection \<open>Ranging over the map of vectors\<close>

text \<open>
  A Go range loop over a map visits every key once, in an order the language leaves open.
  The loops over \<open>e.gauges\<close> take that order as a list \<open>ks\<close> of the keys;
  \<open>range_order ks e\<close> says that \<open>ks\<close> is such an order.
\<close>

definition range_order :: "string list \<Rightarrow> Exporter \<Rightarrow> bool" where
  "range_order ks e \<longleftrightarrow> distinct ks \<and> set ks = dom (gauges e)"

fun Describe_range :: "string list \<Rightarrow> Exporter \<Rightarrow> Desc list" where
  "Describe_range [] e = []"
| "Describe_range (k # ks) e =
     (case gauges e k of None \<Rightarrow> [] | Some vec \<Rightarrow> GaugeVec_Describe vec) @ Describe_range ks e"

definition Describe :: "string list \<Rightarrow> Exporter \<Rightarrow> Desc list" where
  "Describe ks e = gauge_desc (up e) # Describe_range ks e"

fun Reset_range :: "string list \<Rightarrow> Exporter \<Rightarrow> Exporter" where
  "Reset_range [] e = e"
| "Reset_range (k # ks) e =
     Reset_range ks
       (case gauges e k of
          None \<Rightarrow> e
        | Some vec \<Rightarrow> e\<lparr>gauges := (gauges e)(k \<mapsto> GaugeVec_Reset vec)\<rparr>)"

fun Collect_range :: "string list \<Rightarrow> Exporter \<Rightarrow> Metric list" where
  "Collect_range [] e = []"
| "Collect_range (k # ks) e =
     (case gauges e k of None \<Rightarrow> [] | Some vec \<Rightarrow> GaugeVec_Collect vec) @ Collect_range ks e"

subsection \<open>The poll cycle\<close>

text \<open>\<open>strconv.Itoa\<close> on the index of a range loop, which is never negative.\<close>

fun Itoa :: "nat \<Rightarrow> string" where
  "Itoa n =
     (if n < 10 then [''0123456789'' ! n]
      else Itoa (n div 10) @ [''0123456789'' ! (n mod 10)])"

declare Itoa.simps [simp del]

text \<open>
  \<open>e.gauges[name].WithLabelValues(lvs...).Set(v)\<close>. The result \<open>None\<close> is a run-time
  panic: the map has no vector under \<open>name\<close> (a nil pointer), or the number of label values
  is not the number of labels of the vector.
\<close>

definition WithLabelValues_Set ::
  "string \<Rightarrow> string list \<Rightarrow> float64 \<Rightarrow> Exporter \<Rightarrow> Exporter option" where
  "WithLabelValues_Set name lvs v e =
     (case gauges e name of
        None \<Rightarrow> None
      | Some vec \<Rightarrow>
          if length lvs \<noteq> length (variableLabels (vec_desc vec)) then None
          else Some (e\<lparr>gauges := (gauges e)(name \<mapsto>
                       vec\<lparr>children := AList.update lvs v (children vec)\<rparr>)\<rparr>))"

text \<open>
  One iteration of the loop of \<open>GetTelemetryFromNVML\<close> ends at \<open>continue\<close> or, through the
  label \<open>ErrorFetching\<close>, at \<open>return\<close>. The log line written there is not part of the model.
\<close>

datatype flow = Continue Exporter | Return Exporter

definition ErrorFetching :: "Exporter \<Rightarrow> flow option" where
  "ErrorFetching e = Some (Return (e\<lparr>up := (up e)\<lparr>gauge_val := float64 0\<rparr>\<rparr>))"

definition loop_body :: "nvml_driver \<Rightarrow> nat \<Rightarrow> Device \<Rightarrow> Exporter \<Rightarrow> flow option" where
  "loop_body C idx device e =
     (let id = Itoa idx; lvs = [id, DeviceUUID device, DeviceName device] in
      case GetUtilization C device of (gpuPercent, memoryPercent, err) \<Rightarrow>
      if err \<noteq> None then ErrorFetching e
      else do {
        e \<leftarrow> WithLabelValues_Set ''gpu_percent'' lvs (float64 gpuPercent) e;
        e \<leftarrow> WithLabelValues_Set ''memory_percent'' lvs (float64 memoryPercent) e;
        (case GetTemperature C device of (tempF, tempC, err) \<Rightarrow>
         if err \<noteq> None then ErrorFetching e
         else do {
           e \<leftarrow> WithLabelValues_Set ''temperature_celsius'' lvs (float64 tempC) e;
           e \<leftarrow> WithLabelValues_Set ''temperature_fahrenheit'' lvs (float64 tempF) e;
           (case GetPowerUsage C device of (powerUsage, err) \<Rightarrow>
            if err \<noteq> None then ErrorFetching e
            else do {
              e \<leftarrow> WithLabelValues_Set ''power_watts'' lvs (float64 powerUsage) e;
              (case GetFanSpeed C device of (fanSpeed, err) \<Rightarrow>
               if err \<noteq> None then ErrorFetching e
               else do {
                 e \<leftarrow> WithLabelValues_Set ''fan_speed'' lvs (float64 fanSpeed) e;
                 (case GetMemoryInfo C device of (gpuMem, err) \<Rightarrow>
                  if err \<noteq> None then ErrorFetching e
                  else do {
                    e \<leftarrow> WithLabelValues_Set ''memory_free'' lvs (float64 (Free gpuMem)) e;
                    e \<leftarrow> WithLabelValues_Set ''memory_total'' lvs (float64 (Total gpuMem)) e;
                    e \<leftarrow> WithLabelValues_Set ''memory_used'' lvs (float64 (Used gpuMem)) e;
                    Some (Continue e)
                  })
               })
            })
         })
      })"

text \<open>
  The driver answers as time goes by: \<open>nvml idx\<close> is the driver as it answers during
  iteration \<open>idx\<close> of the loop, in which each entry point is called at most once.
\<close>

fun range_devices ::
  "(nat \<Rightarrow> nvml_driver) \<Rightarrow> nat \<Rightarrow> Device list \<Rightarrow> Exporter \<Rightarrow> Exporter option" where
  "range_devices nvml idx [] e = Some e"
| "range_devices nvml idx (device # rest) e =
     (case loop_body (nvml idx) idx device e of
        None \<Rightarrow> None
      | Some (Return e') \<Rightarrow> Some e'
      | Some (Continue e') \<Rightarrow> range_devices nvml (Suc idx) rest e')"

definition GetTelemetryFromNVML :: "(nat \<Rightarrow> nvml_driver) \<Rightarrow> Exporter \<Rightarrow> Exporter option" where
  "GetTelemetryFromNVML nvml e = range_devices nvml 0 (devices e) e"

text \<open>
  \<open>Collect\<close> returns the exporter as the call leaves it and the samples sent on the
  channel, in the order sent. \<open>ks1\<close> is the order of the loop that resets the vectors,
  \<open>ks2\<close> that of the loop that collects them. The deferred send of \<open>e.up\<close> runs when the
  body is done, after the collecting loop. \<open>None\<close> is a panic out of the poll cycle.
\<close>

definition Collect ::
  "(nat \<Rightarrow> nvml_driver) \<Rightarrow> string list \<Rightarrow> string list \<Rightarrow> Exporter \<Rightarrow>
     (Exporter \<times> Metric list) option" where
  "Collect nvml ks1 ks2 e =
     (let e1 = Reset_range ks1 e;
          e2 = e1\<lparr>up := (up e1)\<lparr>gauge_val := float64 1\<rparr>\<rparr>
      in case GetTelemetryFromNVML nvml e2 of
           None \<Rightarrow> None
         | Some e3 \<Rightarrow> Some (e3, Collect_range ks2 e3 @ [Gauge_Collect (up e3)]))"

section \<open>Vocabulary of the properties\<close>

text \<open>
  The states the program can be in: what \<open>NewExporter\<close> builds from a successful
  enumeration, and what a call of \<open>Collect\<close> leaves behind.
\<close>

inductive reachable :: "Exporter \<Rightarrow> bool" where
  reachable_New: "NewExporter (devs, None) = (Some e, None) \<Longrightarrow> reachable e"
| reachable_Collect:
    "reachable e \<Longrightarrow> range_order ks1 e \<Longrightarrow> range_order ks2 e \<Longrightarrow>
     Collect nvml ks1 ks2 e = Some (e', out) \<Longrightarrow> reachable e'"

definition metric_names :: "string list" where
  "metric_names = map fst gaugeMetrics"

text \<open>The descriptor that \<open>NewExporter\<close> gives the vector of a catalog entry.\<close>

definition catalog_desc :: "string \<times> VecInfo \<Rightarrow> Desc" where
  "catalog_desc entry =
     \<lparr>fqName = BuildFQName DefaultNamespace [] (fst entry),
      desc_help = info_help (snd entry),
      variableLabels = info_labels (snd entry)\<rparr>"

definition up_desc :: Desc where
  "up_desc =
     \<lparr>fqName = ''nvml_up'', desc_help = ''Were the NVML queries successful?'',
      variableLabels = []\<rparr>"

text \<open>The label values under which the loop files the samples of the device at index \<open>idx\<close>.\<close>

definition labels_of :: "nat \<Rightarrow> Device \<Rightarrow> string list" where
  "labels_of idx device = [Itoa idx, DeviceUUID device, DeviceName device]"

text \<open>The samples a metric series holds, and how many of them carry given label values.\<close>

definition series :: "Exporter \<Rightarrow> string \<Rightarrow> (string list \<times> float64) list" where
  "series e m = (case gauges e m of None \<Rightarrow> [] | Some vec \<Rightarrow> children vec)"

definition sample_count :: "Exporter \<Rightarrow> string \<Rightarrow> string list \<Rightarrow> nat" where
  "sample_count e m lvs = length (filter (\<lambda>p. fst p = lvs) (series e m))"

text \<open>The descriptor of a sample sent by \<open>Collect\<close>.\<close>

definition metric_desc :: "Metric \<Rightarrow> Desc" where
  "metric_desc x = (case x of Metric d lvs v \<Rightarrow> d)"

text \<open>
  The five queries of one device, numbered in the order the loop makes them: 1 utilization,
  2 temperature, 3 power, 4 fan speed, 5 memory info. \<open>query_ok C s t\<close>: the driver \<open>C\<close>
  answers query \<open>t\<close> on device \<open>s\<close> with \<open>NVML_SUCCESS\<close>.
\<close>

definition query_ok :: "nvml_driver \<Rightarrow> Device \<Rightarrow> nat \<Rightarrow> bool" where
  "query_ok C s t =
     (if t = 1 then fst (nvmlDeviceGetUtilizationRates C (Device_d s)) = NVML_SUCCESS
      else if t = 2 then fst (nvmlDeviceGetTemperature C (Device_d s)) = NVML_SUCCESS
      else if t = 3 then fst (nvmlDeviceGetPowerUsage C (Device_d s)) = NVML_SUCCESS
      else if t = 4 then fst (nvmlDeviceGetFanSpeed C (Device_d s)) = NVML_SUCCESS
      else if t = 5 then fst (nvmlDeviceGetMemoryInfo C (Device_d s)) = NVML_SUCCESS
      else False)"

text \<open>The query whose result a metric publishes.\<close>

definition step_of :: "string \<Rightarrow> nat" where
  "step_of m =
     (if m = ''gpu_percent'' \<or> m = ''memory_percent'' then 1
      else if m = ''temperature_celsius'' \<or> m = ''temperature_fahrenheit'' then 2
      else if m = ''power_watts'' then 3
      else if m = ''fan_speed'' then 4
      else 5)"

text \<open>
  Two drivers give the same answers on a device to the queries 1 to \<open>s\<close>.
\<close>

definition same_answers :: "nat \<Rightarrow> nvml_driver \<Rightarrow> nvml_driver \<Rightarrow> Device \<Rightarrow> bool" where
  "same_answers s C C' dev \<longleftrightarrow>
     (1 \<le> s \<longrightarrow> nvmlDeviceGetUtilizationRates C (Device_d dev) =
                  nvmlDeviceGetUtilizationRates C' (Device_d dev)) \<and>
     (2 \<le> s \<longrightarrow> nvmlDeviceGetTemperature C (Device_d dev) =
                  nvmlDeviceGetTemperature C' (Device_d dev)) \<and>
     (3 \<le> s \<longrightarrow> nvmlDeviceGetPowerUsage C (Device_d dev) =
                  nvmlDeviceGetPowerUsage C' (Device_d dev)) \<and>
     (4 \<le> s \<longrightarrow> nvmlDeviceGetFanSpeed C (Device_d dev) =
                  nvmlDeviceGetFanSpeed C' (Device_d dev)) \<and>
     (5 \<le> s \<longrightarrow> nvmlDeviceGetMemoryInfo C (Device_d dev) =
                  nvmlDeviceGetMemoryInfo C' (Device_d dev))"

subsection \<open>Auxiliary notions of the proofs\<close>

text \<open>The vectors carry the descriptors of the catalog, and \<open>up\<close> its own.\<close>

definition schema_ok :: "Exporter \<Rightarrow> bool" where
  "schema_ok e \<longleftrightarrow>
     (\<forall>m. map_option vec_desc (gauges e m) =
          map_option (\<lambda>info. catalog_desc (m, info)) (map_of gaugeMetrics m)) \<and>
     gauge_desc (up e) = up_desc"

text \<open>The state after a \<open>WithLabelValues_Set\<close> that does not panic.\<close>

definition put :: "string \<Rightarrow> string list \<Rightarrow> float64 \<Rightarrow> Exporter \<Rightarrow> Exporter" where
  "put m lvs v e =
     e\<lparr>gauges := (gauges e)(m \<mapsto>
          (the (gauges e m))\<lparr>children := AList.update lvs v (children (the (gauges e m)))\<rparr>)\<rparr>"

text \<open>How many of the five queries succeed before the first one that fails.\<close>

definition ok_level :: "nvml_driver \<Rightarrow> Device \<Rightarrow> nat" where
  "ok_level C s =
     (if \<not> query_ok C s 1 then 0
      else if \<not> query_ok C s 2 then 1
      else if \<not> query_ok C s 3 then 2
      else if \<not> query_ok C s 4 then 3
      else if \<not> query_ok C s 5 then 4
      else 5)"

text \<open>The value the loop stores for a metric, from the results of the queries.\<close>

definition reading :: "nvml_driver \<Rightarrow> Device \<Rightarrow> string \<Rightarrow> float64" where
  "reading C s m =
     (if m = ''gpu_percent'' then float64 (fst (GetUtilization C s))
      else if m = ''memory_percent'' then float64 (fst (snd (GetUtilization C s)))
      else if m = ''temperature_celsius'' then float64 (fst (snd (GetTemperature C s)))
      else if m = ''temperature_fahrenheit'' then float64 (fst (GetTemperature C s))
      else if m = ''power_watts'' then float64 (fst (GetPowerUsage C s))
      else if m = ''fan_speed'' then float64 (fst (GetFanSpeed C s))
      else if m = ''memory_free'' then float64 (Free (fst (GetMemoryInfo C s)))
      else if m = ''memory_total'' then float64 (Total (fst (GetMemoryInfo C s)))
      else float64 (Used (fst (GetMemoryInfo C s))))"

text \<open>
  In the loop over \<open>devs\<close> that starts at index \<open>idx\<close>, the device at position \<open>i\<close> is
  reached and its queries 1 to \<open>s\<close> succeed.
\<close>

fun reached :: "(nat \<Rightarrow> nvml_driver) \<Rightarrow> nat \<Rightarrow> Device list \<Rightarrow> nat \<Rightarrow> nat \<Rightarrow> bool" where
  "reached nvml idx [] i s = False"
| "reached nvml idx (d # ds) 0 s = (s \<le> ok_level (nvml idx) d)"
| "reached nvml idx (d # ds) (Suc i) s =
     (ok_level (nvml idx) d = 5 \<and> reached nvml (Suc idx) ds i s)"

text \<open>The state in which the label \<open>ErrorFetching\<close> leaves the exporter.\<close>

definition failed :: "Exporter \<Rightarrow> Exporter" where
  "failed e = e\<lparr>up := (up e)\<lparr>gauge_val := float64 0\<rparr>\<rparr>"

text \<open>
  What one iteration of the device loop establishes: the series of the queries that
  succeeded before the first failure have the device's sample stored, the others are
  untouched, and \<open>up\<close> is 0 unless all five queries succeeded.
\<close>

definition body_post :: "nvml_driver \<Rightarrow> nat \<Rightarrow> Device \<Rightarrow> Exporter \<Rightarrow> Exporter \<Rightarrow> bool" where
  "body_post C idx dev e e1 \<longleftrightarrow>
     schema_ok e1 \<and> devices e1 = devices e \<and>
     gauge_val (up e1) = (if ok_level C dev = 5 then gauge_val (up e) else float64 0) \<and>
     (\<forall>m\<in>set metric_names. series e1 m =
        (if step_of m \<le> ok_level C dev
         then AList.update (labels_of idx dev) (reading C dev m) (series e m)
         else series e m))"

text \<open>
  What the device loop does to one series: the keys stay distinct, every device that is
  reached with its query answered has its reading stored under its label values, and no
  other key changes.
\<close>

definition series_post ::
  "(nat \<Rightarrow> nvml_driver) \<Rightarrow> nat \<Rightarrow> Device list \<Rightarrow> string \<Rightarrow>
   (string list \<times> float64) list \<Rightarrow> (string list \<times> float64) list \<Rightarrow> bool" where
  "series_post nvml idx devs m al al' \<longleftrightarrow>
     (distinct (map fst al) \<longrightarrow> distinct (map fst al')) \<and>
     (\<forall>i<length devs. reached nvml idx devs i (step_of m) \<longrightarrow>
        map_of al' (labels_of (idx + i) (devs ! i)) = Some (reading (nvml (idx + i)) (devs ! i) m)) \<and>
     (\<forall>key. (\<forall>i<length devs. reached nvml idx devs i (step_of m) \<longrightarrow>
                key \<noteq> labels_of (idx + i) (devs ! i)) \<longrightarrow>
        map_of al' key = map_of al key)"

definition loop_post ::
  "(nat \<Rightarrow> nvml_driver) \<Rightarrow> nat \<Rightarrow> Device list \<Rightarrow> Exporter \<Rightarrow> Exporter \<Rightarrow> bool" where
  "loop_post nvml idx devs e e' \<longleftrightarrow>
     schema_ok e' \<and> devices e' = devices e \<and>
     gauge_val (up e') =
       (if \<forall>i<length devs. ok_level (nvml (idx + i)) (devs ! i) = 5
        then gauge_val (up e) else float64 0) \<and>
     (\<forall>m\<in>set metric_names. series_post nvml idx devs m (series e m) (series e' m))"

text \<open>The exporter after the first two steps of \<open>Collect\<close>: vectors reset, \<open>up\<close> set to 1.\<close>

definition cleared :: "string list \<Rightarrow> Exporter \<Rightarrow> Exporter" where
  "cleared ks e = (Reset_range ks e)\<lparr>up := (up (Reset_range ks e))\<lparr>gauge_val := float64 1\<rparr>\<rparr>"

definition cycle_post :: "(nat \<Rightarrow> nvml_driver) \<Rightarrow> Exporter \<Rightarrow> Exporter \<Rightarrow> bool" where
  "cycle_post nvml e e' \<longleftrightarrow>
     schema_ok e' \<and> devices e' = devices e \<and>
     gauge_val (up e') =
       (if \<forall>i<length (devices e). ok_level (nvml i) (devices e ! i) = 5
        then float64 1 else float64 0) \<and>
     (\<forall>m\<in>set metric_names. series_post nvml 0 (devices e) m [] (series e' m))"

subsection \<open>Example inputs\<close>

text \<open>
  The scenario of the spec: a device \<open>GPU-abc\<close> whose driver answers utilization (42, 17),
  70 degrees Celsius, 125500 milliwatts, fan speed 55 percent and memory (1000 free, 4000
  total, 3000 used). Two more devices, a driver whose power query fails with the code 999,
  a poll cycle in which the driver fails so for the second device only, and the exporter
  built from a list of devices.
\<close>

definition example_device :: Device where
  "example_device = \<lparr>DeviceName = ''Test-GPU'', DeviceUUID = ''GPU-abc'', Device_d = 0, Device_i = 0\<rparr>"

definition second_device :: Device where
  "second_device = \<lparr>DeviceName = ''Test-GPU'', DeviceUUID = ''GPU-def'', Device_d = 1, Device_i = 1\<rparr>"

definition third_device :: Device where
  "third_device = \<lparr>DeviceName = ''Test-GPU'', DeviceUUID = ''GPU-ghi'', Device_d = 2, Device_i = 2\<rparr>"

definition example_driver :: nvml_driver where
  "example_driver =
     \<lparr>nvmlDeviceGetUtilizationRates = (\<lambda>_. (NVML_SUCCESS, \<lparr>util_gpu = 42, util_memory = 17\<rparr>)),
      nvmlDeviceGetTemperature = (\<lambda>_. (NVML_SUCCESS, 70)),
      nvmlDeviceGetPowerUsage = (\<lambda>_. (NVML_SUCCESS, 125500)),
      nvmlDeviceGetFanSpeed = (\<lambda>_. (NVML_SUCCESS, 55)),
      nvmlDeviceGetMemoryInfo =
        (\<lambda>_. (NVML_SUCCESS, \<lparr>mem_total = 4000, mem_free = 1000, mem_used = 3000\<rparr>))\<rparr>"

definition power_failing_driver :: nvml_driver where
  "power_failing_driver = example_driver\<lparr>nvmlDeviceGetPowerUsage := (\<lambda>_. (NVML_ERROR 999, 0))\<rparr>"

definition failing_nvml :: "nat \<Rightarrow> nvml_driver" where
  "failing_nvml i = (if i = 1 then power_failing_driver else example_driver)"

definition example_exporter :: "Device list \<Rightarrow> Exporter" where
  "example_exporter devs = the (fst (NewExporter (devs, None)))"

section \<open>Conversions in the device layer\<close>

subsection \<open>Go integers as 64-bit words\<close>

lemma sint_wi64: "- (2 ^ 63) \<le> k \<Longrightarrow> k < 2 ^ 63 \<Longrightarrow> sint (word_of_int k :: 64 word) = k"
  by (simp add: sint_sbintrunc' signed_take_bit_int_eq_self)

lemma uint32_bound: "uint (w::32 word) < 4294967296"
proof -
  have "uint w < 2 ^ LENGTH(32)" by (rule uint_bounded)
  then show ?thesis by simp
qed

lemma ucast_32_64: "(ucast (w :: 32 word) :: 64 word) = word_of_int (uint w)"
  by (rule ucast_eq)

lemma sint_ucast_32_64: "sint (ucast (w :: 32 word) :: 64 word) = uint w"
proof -
  have "(0::int) \<le> uint w" by simp
  then have lo: "- (2 ^ 63) \<le> uint w" by (rule order_trans[rotated]) simp
  have hi: "uint w < 2 ^ 63" using uint32_bound[of w] by simp
  show ?thesis unfolding ucast_32_64 using lo hi by (rule sint_wi64)
qed

lemma sdiv_nonneg: "0 \<le> (a::int) \<Longrightarrow> 0 < b \<Longrightarrow> a sdiv b = a div b"
  by (simp add: signed_divide_int_def sgn_if)

lemma quo_small: "0 \<le> a \<Longrightarrow> a < 2 ^ 63 \<Longrightarrow> 0 < b \<Longrightarrow> b < 2 ^ 63 \<Longrightarrow>
   quo (word_of_int a) (word_of_int b) = word_of_int (a sdiv b)"
  by (simp add: quo_def sint_wi64)

lemma div5_bounds: "0 \<le> (x::int) \<Longrightarrow> 0 \<le> x div 5 \<and> x div 5 \<le> x"
proof -
  assume a: "0 \<le> x"
  have m: "5 * (x div 5) + x mod 5 = x" by (rule mult_div_mod_eq)
  have n: "0 \<le> x mod 5" by simp
  have d: "0 \<le> x div 5" using a by simp
  from m n d show ?thesis by linarith
qed

lemma div1000_bounds: "0 \<le> (x::int) \<Longrightarrow> 0 \<le> x div 1000 \<and> x div 1000 \<le> x"
proof -
  assume a: "0 \<le> x"
  have m: "1000 * (x div 1000) + x mod 1000 = x" by (rule mult_div_mod_eq)
  have n: "0 \<le> x mod 1000" by simp
  have d: "0 \<le> x div 1000" using a by simp
  from m n d show ?thesis by linarith
qed

lemma fahrenheit_word:
  "quo (ucast (tempc::32 word) * 9) 5 + 32 = (word_of_int (uint tempc * 9 sdiv 5 + 32) :: 64 word)"
proof -
  have b: "uint tempc < 4294967296" by (rule uint32_bound)
  have "quo (word_of_int (uint tempc * 9)) (word_of_int 5) = word_of_int (uint tempc * 9 sdiv 5)"
    using b by (intro quo_small) simp_all
  then show ?thesis unfolding ucast_32_64 by simp
qed

lemma fahrenheit_sint:
  "sint (word_of_int (uint (tempc::32 word) * 9 sdiv 5 + 32) :: 64 word) = uint tempc * 9 sdiv 5 + 32"
proof -
  have b: "uint tempc < 4294967296" by (rule uint32_bound)
  have e: "uint tempc * 9 sdiv 5 = uint tempc * 9 div 5" by (simp add: sdiv_nonneg)
  have "0 \<le> uint tempc * 9" by simp
  from div5_bounds[OF this] b show ?thesis unfolding e by (intro sint_wi64) simp_all
qed

lemma watts_word: "quo (ucast (mw::32 word)) 1000 = (word_of_int (uint mw sdiv 1000) :: 64 word)"
proof -
  have b: "uint mw < 4294967296" by (rule uint32_bound)
  have "quo (word_of_int (uint mw)) (word_of_int 1000) = word_of_int (uint mw sdiv 1000)"
    using b by (intro quo_small) simp_all
  then show ?thesis unfolding ucast_32_64 by simp
qed

lemma watts_sint: "sint (word_of_int (uint (mw::32 word) sdiv 1000) :: 64 word) = uint mw sdiv 1000"
proof -
  have b: "uint mw < 4294967296" by (rule uint32_bound)
  have e: "uint mw sdiv 1000 = uint mw div 1000" by (simp add: sdiv_nonneg)
  have "0 \<le> uint mw" by simp
  from div1000_bounds[OF this] b show ?thesis unfolding e by (intro sint_wi64) simp_all
qed

subsection \<open>Temperature and power\<close>

lemma GetTemperature_success:
  assumes "nvmlDeviceGetTemperature C (Device_d s) = (NVML_SUCCESS, tempc)"
  shows "GetTemperature C s = (word_of_int (uint tempc * 9 sdiv 5 + 32), ucast tempc, None)"
  using assms by (simp add: GetTemperature_def Let_def fahrenheit_word)

lemma GetPowerUsage_success:
  assumes "nvmlDeviceGetPowerUsage C (Device_d s) = (NVML_SUCCESS, mw)"
  shows "GetPowerUsage C s = (word_of_int (uint mw sdiv 1000), None)"
  using assms by (simp add: GetPowerUsage_def callGetIntFunc_def watts_word)

text \<open>
  Claim C7. A temperature query that the driver answers with \<open>NVML_SUCCESS\<close> and the
  reading \<open>tempc\<close> returns without error; the Celsius result is \<open>tempc\<close> as a Go
  \<open>int\<close>, and the Fahrenheit result is \<open>C * 9 / 5 + 32\<close> with the quotient truncated,
  none of the operations wrapping around. For 70 degrees Celsius the Fahrenheit result
  is 158.
\<close>

theorem temperature_conversion:
  assumes "nvmlDeviceGetTemperature C (Device_d s) = (NVML_SUCCESS, tempc)"
  shows "\<exists>tempF tempC. GetTemperature C s = (tempF, tempC, None) \<and>
           tempC = ucast tempc \<and> sint tempC = uint tempc \<and>
           tempF = word_of_int (sint tempC * 9 sdiv 5 + 32) \<and>
           sint tempF = sint tempC * 9 sdiv 5 + 32"
proof (intro exI conjI)
  show "GetTemperature C s = (word_of_int (uint tempc * 9 sdiv 5 + 32), ucast tempc, None)"
    by (rule GetTemperature_success[OF assms])
  show "(ucast tempc :: go_int) = ucast tempc" ..
  show "sint (ucast tempc :: go_int) = uint tempc" by (rule sint_ucast_32_64)
  show "(word_of_int (uint tempc * 9 sdiv 5 + 32) :: go_int) =
          word_of_int (sint (ucast tempc :: go_int) * 9 sdiv 5 + 32)"
    unfolding sint_ucast_32_64 ..
  show "sint (word_of_int (uint tempc * 9 sdiv 5 + 32) :: go_int) =
          sint (ucast tempc :: go_int) * 9 sdiv 5 + 32"
    unfolding sint_ucast_32_64 by (rule fahrenheit_sint)
qed

theorem temperature_conversion_witness:
  "GetTemperature example_driver example_device = (158, 70, None)"
proof -
  have h: "nvmlDeviceGetTemperature example_driver (Device_d example_device) = (NVML_SUCCESS, 70)"
    by (simp add: example_driver_def)
  from temperature_conversion[OF h] show ?thesis by auto
qed

section \<open>The poll cycle\<close>

subsection \<open>The catalog and the vectors built from it\<close>

lemma metric_names_eq:
  "metric_names = [''power_watts'', ''fan_speed'', ''gpu_percent'', ''memory_free'',
     ''memory_total'', ''memory_used'', ''memory_percent'', ''temperature_fahrenheit'',
     ''temperature_celsius'']"
  by (simp add: metric_names_def gaugeMetrics_def)

lemma distinct_metric_names: "distinct metric_names"
  by (simp add: metric_names_eq)

lemma distinct_catalog_keys: "distinct (map fst gaugeMetrics)"
  using distinct_metric_names by (simp add: metric_names_def)

lemma names_mem:
  "''power_watts'' \<in> set metric_names" "''fan_speed'' \<in> set metric_names"
  "''gpu_percent'' \<in> set metric_names" "''memory_free'' \<in> set metric_names"
  "''memory_total'' \<in> set metric_names" "''memory_used'' \<in> set metric_names"
  "''memory_percent'' \<in> set metric_names" "''temperature_fahrenheit'' \<in> set metric_names"
  "''temperature_celsius'' \<in> set metric_names"
  by (simp_all add: metric_names_eq)

lemma map_of_catalog_Some:
  "m \<in> set metric_names \<Longrightarrow> \<exists>info. map_of gaugeMetrics m = Some info \<and> length (info_labels info) = 3"
  by (auto simp: metric_names_eq gaugeMetrics_def)

lemma map_of_catalog_None:
  "m \<notin> set metric_names \<Longrightarrow> map_of gaugeMetrics m = None"
  by (simp add: metric_names_def map_of_eq_None_iff)

lemma schema_ok_lookup:
  assumes "schema_ok e" "m \<in> set metric_names"
  shows "\<exists>vec. gauges e m = Some vec \<and> length (variableLabels (vec_desc vec)) = 3"
proof -
  from map_of_catalog_Some[OF assms(2)] obtain info
    where i: "map_of gaugeMetrics m = Some info" "length (info_labels info) = 3" by blast
  from assms(1) have "map_option vec_desc (gauges e m) = Some (catalog_desc (m, info))"
    by (simp add: schema_ok_def i)
  then obtain vec where "gauges e m = Some vec" "vec_desc vec = catalog_desc (m, info)"
    by auto
  with i show ?thesis by (simp add: catalog_desc_def)
qed

lemma schema_ok_dom:
  assumes "schema_ok e"
  shows "dom (gauges e) = set metric_names"
proof -
  have "\<And>m. (gauges e m = None) = (map_of gaugeMetrics m = None)"
    using assms unfolding schema_ok_def by (metis map_option_is_None)
  then show ?thesis
    by (auto simp: dom_def metric_names_def map_of_eq_None_iff)
qed

lemma series_outside_catalog:
  assumes "schema_ok e" "m \<notin> set metric_names"
  shows "series e m = []"
proof -
  from assms have "m \<notin> dom (gauges e)" by (simp add: schema_ok_dom)
  then show ?thesis by (auto simp: series_def split: option.splits)
qed

lemma catalog_fqName_not_up: "m \<in> set metric_names \<Longrightarrow> BuildFQName DefaultNamespace [] m \<noteq> ''nvml_up''"
  by (auto simp: metric_names_eq BuildFQName_def DefaultNamespace_def)

lemma schema_ok_vec_desc:
  assumes "schema_ok e" "gauges e m = Some vec"
  shows "m \<in> set metric_names" "\<exists>info. (m, info) \<in> set gaugeMetrics \<and> vec_desc vec = catalog_desc (m, info)"
    "vec_desc vec \<noteq> up_desc"
proof -
  from assms have d: "m \<in> dom (gauges e)" by auto
  with assms(1) show m: "m \<in> set metric_names" by (simp add: schema_ok_dom)
  from map_of_catalog_Some[OF m] obtain info where i: "map_of gaugeMetrics m = Some info"
    by blast
  from assms i have v: "vec_desc vec = catalog_desc (m, info)"
    by (auto simp: schema_ok_def dest: spec[of _ m])
  from i have "(m, info) \<in> set gaugeMetrics" by (rule map_of_SomeD)
  with v show "\<exists>info. (m, info) \<in> set gaugeMetrics \<and> vec_desc vec = catalog_desc (m, info)"
    by blast
  from v catalog_fqName_not_up[OF m] show "vec_desc vec \<noteq> up_desc"
    by (auto simp: catalog_desc_def up_desc_def)
qed

lemma schema_ok_descs:
  assumes "schema_ok e"
  shows "(\<lambda>k. vec_desc (the (gauges e k))) ` set metric_names = catalog_desc ` set gaugeMetrics"
proof (intro set_eqI iffI)
  fix x assume "x \<in> (\<lambda>k. vec_desc (the (gauges e k))) ` set metric_names"
  then obtain k where k: "k \<in> set metric_names" and x: "x = vec_desc (the (gauges e k))"
    by blast
  from schema_ok_lookup[OF assms k] obtain vec where v: "gauges e k = Some vec" by blast
  from schema_ok_vec_desc(2)[OF assms v] x v show "x \<in> catalog_desc ` set gaugeMetrics"
    by auto
next
  fix x assume "x \<in> catalog_desc ` set gaugeMetrics"
  then obtain m info where mi: "(m, info) \<in> set gaugeMetrics" and x: "x = catalog_desc (m, info)"
    by auto
  from mi have m: "m \<in> set metric_names" by (force simp: metric_names_def)
  from mi have i: "map_of gaugeMetrics m = Some info"
    using distinct_catalog_keys by (simp add: map_of_is_SomeI)
  from schema_ok_lookup[OF assms m] obtain vec where v: "gauges e m = Some vec" by blast
  from assms i v have "vec_desc vec = catalog_desc (m, info)"
    by (auto simp: schema_ok_def dest: spec[of _ m])
  with x v m show "x \<in> (\<lambda>k. vec_desc (the (gauges e k))) ` set metric_names"
    by force
qed

subsection \<open>Storing a sample\<close>

lemma WithLabelValues_Set_put:
  assumes "schema_ok e" "m \<in> set metric_names"
  shows "WithLabelValues_Set m [a, b, c] v e = Some (put m [a, b, c] v e)"
proof -
  from schema_ok_lookup[OF assms] obtain vec where
    "gauges e m = Some vec" "length (variableLabels (vec_desc vec)) = 3" by blast
  then show ?thesis by (simp add: WithLabelValues_Set_def put_def)
qed

lemma schema_ok_put:
  assumes "schema_ok e" "m \<in> set metric_names"
  shows "schema_ok (put m lvs v e)"
proof -
  from schema_ok_lookup[OF assms] obtain vec where v: "gauges e m = Some vec" by blast
  have "map_option vec_desc (gauges (put m lvs v e) x) = map_option vec_desc (gauges e x)" for x
    using v by (cases "x = m") (simp_all add: put_def)
  moreover have "up (put m lvs v e) = up e" by (simp add: put_def)
  ultimately show ?thesis using assms(1) by (simp add: schema_ok_def)
qed

lemma series_put:
  assumes "schema_ok e" "m \<in> set metric_names"
  shows "series (put m lvs v e) m' =
           (if m' = m then AList.update lvs v (series e m) else series e m')"
proof -
  from schema_ok_lookup[OF assms] obtain vec where v: "gauges e m = Some vec" by blast
  show ?thesis using v by (simp add: series_def put_def)
qed

lemma up_put: "up (put m lvs v e) = up e"
  by (simp add: put_def)

lemma devices_put: "devices (put m lvs v e) = devices e"
  by (simp add: put_def)

subsection \<open>One iteration of the device loop\<close>

lemma err_GetUtilization: "(\<exists>y. snd (snd (GetUtilization C s)) = Some y) \<longleftrightarrow> \<not> query_ok C s 1"
  by (simp add: GetUtilization_def query_ok_def split: prod.splits)

lemma err_GetTemperature: "(\<exists>y. snd (snd (GetTemperature C s)) = Some y) \<longleftrightarrow> \<not> query_ok C s 2"
  by (simp add: GetTemperature_def query_ok_def Let_def split: prod.splits)

lemma err_GetPowerUsage: "(\<exists>y. snd (GetPowerUsage C s) = Some y) \<longleftrightarrow> \<not> query_ok C s 3"
  by (simp add: GetPowerUsage_def callGetIntFunc_def query_ok_def split: prod.splits)

lemma err_GetFanSpeed: "(\<exists>y. snd (GetFanSpeed C s) = Some y) \<longleftrightarrow> \<not> query_ok C s 4"
  by (simp add: GetFanSpeed_def callGetIntFunc_def query_ok_def split: prod.splits)

lemma err_GetMemoryInfo: "(\<exists>y. snd (GetMemoryInfo C s) = Some y) \<longleftrightarrow> \<not> query_ok C s 5"
  by (simp add: GetMemoryInfo_def query_ok_def split: prod.splits)

lemmas err_Get = err_GetUtilization err_GetTemperature err_GetPowerUsage err_GetFanSpeed
  err_GetMemoryInfo

lemma failed_simps:
  "schema_ok (failed e) = schema_ok e" "series (failed e) m = series e m"
  "devices (failed e) = devices e" "gauge_desc (up (failed e)) = gauge_desc (up e)"
  "gauge_val (up (failed e)) = float64 0"
  by (simp_all add: failed_def schema_ok_def series_def)

lemma ErrorFetching_failed: "ErrorFetching e = Some (Return (failed e))"
  by (simp add: ErrorFetching_def failed_def)

lemma loop_body_unfold:
  assumes "schema_ok e"
  shows "loop_body C idx dev e =
    (let lvs = labels_of idx dev in
     if \<not> query_ok C dev 1 then Some (Return (failed e))
     else let e2 = put ''memory_percent'' lvs (reading C dev ''memory_percent'')
                     (put ''gpu_percent'' lvs (reading C dev ''gpu_percent'') e) in
     if \<not> query_ok C dev 2 then Some (Return (failed e2))
     else let e4 = put ''temperature_fahrenheit'' lvs (reading C dev ''temperature_fahrenheit'')
                     (put ''temperature_celsius'' lvs (reading C dev ''temperature_celsius'') e2) in
     if \<not> query_ok C dev 3 then Some (Return (failed e4))
     else let e5 = put ''power_watts'' lvs (reading C dev ''power_watts'') e4 in
     if \<not> query_ok C dev 4 then Some (Return (failed e5))
     else let e6 = put ''fan_speed'' lvs (reading C dev ''fan_speed'') e5 in
     if \<not> query_ok C dev 5 then Some (Return (failed e6))
     else Some (Continue
            (put ''memory_used'' lvs (reading C dev ''memory_used'')
              (put ''memory_total'' lvs (reading C dev ''memory_total'')
                (put ''memory_free'' lvs (reading C dev ''memory_free'') e6)))))"
  using assms
  by (simp add: loop_body_def Let_def case_prod_beta ErrorFetching_failed err_Get
      WithLabelValues_Set_put schema_ok_put names_mem labels_of_def reading_def del: One_nat_def)

lemma ok_level_cases:
  obtains (L0) "ok_level C dev = 0" "\<not> query_ok C dev 1"
  | (L1) "ok_level C dev = 1" "query_ok C dev 1" "\<not> query_ok C dev 2"
  | (L2) "ok_level C dev = 2" "query_ok C dev 1" "query_ok C dev 2" "\<not> query_ok C dev 3"
  | (L3) "ok_level C dev = 3" "query_ok C dev 1" "query_ok C dev 2" "query_ok C dev 3"
      "\<not> query_ok C dev 4"
  | (L4) "ok_level C dev = 4" "query_ok C dev 1" "query_ok C dev 2" "query_ok C dev 3"
      "query_ok C dev 4" "\<not> query_ok C dev 5"
  | (L5) "ok_level C dev = 5" "query_ok C dev 1" "query_ok C dev 2" "query_ok C dev 3"
      "query_ok C dev 4" "query_ok C dev 5"
  unfolding ok_level_def by (auto split: if_splits)

lemmas body_simps = Let_def failed_simps series_put schema_ok_put names_mem up_put devices_put
  metric_names_eq step_of_def body_post_def

lemma loop_body_result:
  assumes "schema_ok e"
  shows "\<exists>e1. loop_body C idx dev e =
           Some (if ok_level C dev = 5 then Continue e1 else Return e1) \<and>
         body_post C idx dev e e1"
proof (cases C dev rule: ok_level_cases)
  case L0
  then show ?thesis using assms
    by (simp add: loop_body_unfold[OF assms] body_simps del: One_nat_def)
next
  case L1
  then show ?thesis using assms
    by (simp add: loop_body_unfold[OF assms] body_simps del: One_nat_def)
next
  case L2
  then show ?thesis using assms
    by (simp add: loop_body_unfold[OF assms] body_simps del: One_nat_def)
next
  case L3
  then show ?thesis using assms
    by (simp add: loop_body_unfold[OF assms] body_simps del: One_nat_def)
next
  case L4
  then show ?thesis using assms
    by (simp add: loop_body_unfold[OF assms] body_simps del: One_nat_def)
next
  case L5
  then show ?thesis using assms
    by (simp add: loop_body_unfold[OF assms] body_simps del: One_nat_def)
qed

subsection \<open>Label values tell the devices apart\<close>

lemma Itoa_nonempty: "Itoa n \<noteq> []"
  by (subst Itoa.simps) simp

lemma digit_inj: "a < 10 \<Longrightarrow> b < 10 \<Longrightarrow> ''0123456789'' ! a = ''0123456789'' ! b \<Longrightarrow> a = b"
proof -
  have d: "distinct ''0123456789''" by simp
  assume "a < 10" "b < 10" "''0123456789'' ! a = ''0123456789'' ! b"
  with d show ?thesis by (simp add: nth_eq_iff_index_eq)
qed

lemma Itoa_inj: "Itoa n = Itoa m \<Longrightarrow> n = m"
proof (induction n arbitrary: m rule: Itoa.induct)
  case (1 n)
  show ?case
  proof (cases "n < 10")
    case True
    show ?thesis
    proof (cases "m < 10")
      case mT: True
      from "1.prems" True mT have "''0123456789'' ! n = ''0123456789'' ! m"
        by (simp add: Itoa.simps[of n] Itoa.simps[of m])
      with True mT show ?thesis by (rule digit_inj)
    next
      case mF: False
      from "1.prems" True mF have "Itoa (m div 10) = []"
        by (simp add: Itoa.simps[of n] Itoa.simps[of m])
      then show ?thesis by (simp add: Itoa_nonempty)
    qed
  next
    case False
    show ?thesis
    proof (cases "m < 10")
      case mT: True
      from "1.prems" False mT have "Itoa (n div 10) = []"
        by (simp add: Itoa.simps[of n] Itoa.simps[of m])
      then show ?thesis by (simp add: Itoa_nonempty)
    next
      case mF: False
      from "1.prems" False mF have eq: "Itoa (n div 10) = Itoa (m div 10)"
        "''0123456789'' ! (n mod 10) = ''0123456789'' ! (m mod 10)"
        by (simp_all add: Itoa.simps[of n] Itoa.simps[of m])
      from "1.IH"[OF False eq(1)] have "n div 10 = m div 10" .
      moreover have "n mod 10 = m mod 10" by (rule digit_inj[OF _ _ eq(2)]) simp_all
      ultimately show ?thesis by (metis div_mult_mod_eq)
    qed
  qed
qed

lemma labels_of_inj: "labels_of i d = labels_of j d' \<Longrightarrow> i = j"
  by (simp add: labels_of_def Itoa_inj)

lemma Itoa_digits: "Itoa 0 = ''0''" "Itoa 1 = ''1''" "Itoa (Suc 0) = ''1''" "Itoa 2 = ''2''"
  by (simp_all add: Itoa.simps)

subsection \<open>The device loop\<close>

lemma all_less_Suc_split: "(\<forall>i<Suc n. P i) \<longleftrightarrow> P 0 \<and> (\<forall>i<n. P (Suc i))"
  by (auto simp: less_Suc_eq_0_disj)

lemma series_post_Nil: "series_post nvml idx [] m al al"
  by (simp add: series_post_def)

lemma series_post_stop:
  assumes "ok_level (nvml idx) d \<noteq> 5"
    and "al1 = (if step_of m \<le> ok_level (nvml idx) d
                then AList.update (labels_of idx d) (reading (nvml idx) d m) al else al)"
  shows "series_post nvml idx (d # ds) m al al1"
  using assms
  by (auto simp: series_post_def all_less_Suc_split distinct_update update_conv')

lemma series_post_step:
  assumes "ok_level (nvml idx) d = 5" and "step_of m \<le> 5"
    and "al1 = AList.update (labels_of idx d) (reading (nvml idx) d m) al"
    and "series_post nvml (Suc idx) ds m al1 al'"
  shows "series_post nvml idx (d # ds) m al al'"
proof -
  let ?lvs = "labels_of idx d"
  from assms(4) have
    D: "distinct (map fst al1) \<longrightarrow> distinct (map fst al')" and
    R: "\<And>i. i < length ds \<Longrightarrow> reached nvml (Suc idx) ds i (step_of m) \<Longrightarrow>
        map_of al' (labels_of (Suc idx + i) (ds ! i)) = Some (reading (nvml (Suc idx + i)) (ds ! i) m)" and
    F: "\<And>key. (\<forall>i<length ds. reached nvml (Suc idx) ds i (step_of m) \<longrightarrow>
                key \<noteq> labels_of (Suc idx + i) (ds ! i)) \<Longrightarrow> map_of al' key = map_of al1 key"
    unfolding series_post_def by blast+
  have 1: "distinct (map fst al) \<longrightarrow> distinct (map fst al')"
    using D assms(3) by (simp add: distinct_update)
  have "\<forall>i<length ds. reached nvml (Suc idx) ds i (step_of m) \<longrightarrow>
                ?lvs \<noteq> labels_of (Suc idx + i) (ds ! i)"
    using labels_of_inj by fastforce
  from F[OF this] have 2: "map_of al' ?lvs = Some (reading (nvml idx) d m)"
    by (simp add: assms(3) update_conv')
  have 3: "map_of al' key = map_of al key"
    if k: "\<forall>i<length (d # ds). reached nvml idx (d # ds) i (step_of m) \<longrightarrow>
                key \<noteq> labels_of (idx + i) ((d # ds) ! i)" for key
  proof -
    from k assms(1,2) have k0: "key \<noteq> ?lvs"
      and kS: "\<forall>i<length ds. reached nvml (Suc idx) ds i (step_of m) \<longrightarrow>
                key \<noteq> labels_of (Suc idx + i) (ds ! i)"
      by (simp_all add: all_less_Suc_split)
    from F[OF kS] k0 show ?thesis by (simp add: assms(3) update_conv')
  qed
  show ?thesis
    unfolding series_post_def
    using 1 2 3 R assms(1,2) by (simp add: all_less_Suc_split)
qed

lemma step_of_le5: "step_of m \<le> 5"
  by (simp add: step_of_def)

lemma range_devices_result:
  "schema_ok e \<Longrightarrow> \<exists>e'. range_devices nvml idx devs e = Some e' \<and> loop_post nvml idx devs e e'"
proof (induction devs arbitrary: idx e)
  case Nil
  then show ?case by (simp add: loop_post_def series_post_Nil)
next
  case (Cons d ds)
  let ?C = "nvml idx"
  from loop_body_result[OF Cons.prems, of ?C idx d] obtain e1 where
    b: "loop_body ?C idx d e = Some (if ok_level ?C d = 5 then Continue e1 else Return e1)"
    and p: "body_post ?C idx d e e1" by blast
  from p have s1: "schema_ok e1" and d1: "devices e1 = devices e"
    and u1: "gauge_val (up e1) = (if ok_level ?C d = 5 then gauge_val (up e) else float64 0)"
    and ser1: "\<And>m. m \<in> set metric_names \<Longrightarrow> series e1 m =
        (if step_of m \<le> ok_level ?C d
         then AList.update (labels_of idx d) (reading ?C d m) (series e m)
         else series e m)"
    by (simp_all add: body_post_def)
  show ?case
  proof (cases "ok_level ?C d = 5")
    case False
    from b False have r: "range_devices nvml idx (d # ds) e = Some e1" by simp
    have "series_post nvml idx (d # ds) m (series e m) (series e1 m)"
      if "m \<in> set metric_names" for m
      using False ser1[OF that] by (rule series_post_stop)
    with s1 d1 u1 False have "loop_post nvml idx (d # ds) e e1"
      by (auto simp: loop_post_def)
    with r show ?thesis by blast
  next
    case True
    from Cons.IH[OF s1, of "Suc idx"] obtain e' where
      r': "range_devices nvml (Suc idx) ds e1 = Some e'" and
      p': "loop_post nvml (Suc idx) ds e1 e'" by blast
    from b True r' have r: "range_devices nvml idx (d # ds) e = Some e'" by simp
    have sp: "series_post nvml idx (d # ds) m (series e m) (series e' m)"
      if m: "m \<in> set metric_names" for m
    proof (rule series_post_step[where nvml=nvml and idx=idx and d=d and m=m, OF True step_of_le5])
      show "series e1 m = AList.update (labels_of idx d) (reading ?C d m) (series e m)"
        using ser1[OF m] True step_of_le5[of m] by simp
      show "series_post nvml (Suc idx) ds m (series e1 m) (series e' m)"
        using p' m by (simp add: loop_post_def)
    qed
    from p' have "schema_ok e'" "devices e' = devices e1"
      "gauge_val (up e') =
       (if \<forall>i<length ds. ok_level (nvml (Suc idx + i)) (ds ! i) = 5
        then gauge_val (up e1) else float64 0)"
      by (simp_all add: loop_post_def)
    with sp d1 u1 True have "loop_post nvml idx (d # ds) e e'"
      by (auto simp: loop_post_def all_less_Suc_split)
    with r show ?thesis by blast
  qed
qed

subsection \<open>Resetting, collecting and describing\<close>

lemma GaugeVec_Reset_idem: "GaugeVec_Reset (GaugeVec_Reset vec) = GaugeVec_Reset vec"
  by (simp add: GaugeVec_Reset_def)

lemma Reset_range_gauges:
  "gauges (Reset_range ks e) m =
     (if m \<in> set ks then map_option GaugeVec_Reset (gauges e m) else gauges e m)"
proof (induction ks arbitrary: e)
  case Nil
  show ?case by simp
next
  case (Cons k ks)
  show ?case
    by (cases "gauges e k") (auto simp: Cons.IH GaugeVec_Reset_idem)
qed

lemma Reset_range_up: "up (Reset_range ks e) = up e"
  by (induction ks arbitrary: e) (auto split: option.splits)

lemma Reset_range_devices: "devices (Reset_range ks e) = devices e"
  by (induction ks arbitrary: e) (auto split: option.splits)

lemma Reset_range_series: "range_order ks e \<Longrightarrow> series (Reset_range ks e) m = []"
  by (cases "gauges e m")
     (auto simp: series_def Reset_range_gauges GaugeVec_Reset_def range_order_def)

lemma cleared_schema_ok: "schema_ok e \<Longrightarrow> schema_ok (cleared ks e)"
proof -
  assume a: "schema_ok e"
  have "map_option vec_desc (gauges (cleared ks e) m) = map_option vec_desc (gauges e m)" for m
    by (cases "gauges e m") (simp_all add: cleared_def Reset_range_gauges GaugeVec_Reset_def)
  with a show ?thesis by (simp add: schema_ok_def cleared_def Reset_range_up)
qed

lemma cleared_series: "range_order ks e \<Longrightarrow> series (cleared ks e) m = []"
  by (cases "gauges e m")
     (auto simp: series_def cleared_def Reset_range_gauges GaugeVec_Reset_def range_order_def)

lemma cleared_simps:
  "devices (cleared ks e) = devices e" "gauge_val (up (cleared ks e)) = float64 1"
  by (simp_all add: cleared_def Reset_range_devices)

lemma set_Collect_range:
  "set (Collect_range ks e) =
     (\<Union>k\<in>set ks. case gauges e k of None \<Rightarrow> {} | Some vec \<Rightarrow> set (GaugeVec_Collect vec))"
  by (induction ks) (auto split: option.splits)

lemma Collect_range_no_up:
  assumes "schema_ok e"
  shows "filter (\<lambda>x. metric_desc x = up_desc) (Collect_range ks e) = []"
proof -
  have "metric_desc x \<noteq> up_desc" if "x \<in> set (Collect_range ks e)" for x
  proof -
    from that obtain k vec where "gauges e k = Some vec" "x \<in> set (GaugeVec_Collect vec)"
      by (auto simp: set_Collect_range split: option.splits)
    with schema_ok_vec_desc(3)[OF assms this(1)] show ?thesis
      by (auto simp: GaugeVec_Collect_def metric_desc_def)
  qed
  then show ?thesis by (simp add: filter_empty_conv)
qed

lemma Describe_range_map:
  "set ks \<subseteq> dom (gauges e) \<Longrightarrow> Describe_range ks e = map (\<lambda>k. vec_desc (the (gauges e k))) ks"
  by (induction ks) (auto simp: GaugeVec_Describe_def)

subsection \<open>A call of \<open>Collect\<close>\<close>

lemma Collect_unfold:
  "Collect nvml ks1 ks2 e =
     (case range_devices nvml 0 (devices e) (cleared ks1 e) of
        None \<Rightarrow> None
      | Some e3 \<Rightarrow> Some (e3, Collect_range ks2 e3 @ [Gauge_Collect (up e3)]))"
  by (simp add: Collect_def Let_def GetTelemetryFromNVML_def cleared_def Reset_range_devices)

lemma Collect_result:
  assumes "schema_ok e" "range_order ks1 e"
  shows "\<exists>e'. Collect nvml ks1 ks2 e =
                 Some (e', Collect_range ks2 e' @ [Gauge_Collect (up e')]) \<and>
               cycle_post nvml e e'"
proof -
  from range_devices_result[OF cleared_schema_ok[OF assms(1)], of nvml 0 "devices e" ks1]
  obtain e' where r: "range_devices nvml 0 (devices e) (cleared ks1 e) = Some e'"
    and p: "loop_post nvml 0 (devices e) (cleared ks1 e) e'" by blast
  from p assms(2) have "cycle_post nvml e e'"
    by (simp add: loop_post_def cycle_post_def cleared_simps cleared_series)
  with r show ?thesis by (simp add: Collect_unfold)
qed

lemma NewExporter_schema_ok:
  assumes "NewExporter (devs, None) = (Some e, None)"
  shows "schema_ok e" "devices e = devs" "series e m = []"
proof -
  from assms have e: "e = fold (\<lambda>(name, info) exp.
                         exp\<lparr>gauges := (gauges exp)(name \<mapsto>
                           NewGaugeVec \<lparr>Namespace = DefaultNamespace, Subsystem = [],
                                        Name = name, Help = info_help info\<rparr> (info_labels info))\<rparr>)
                   gaugeMetrics
                   \<lparr>up = NewGauge \<lparr>Namespace = DefaultNamespace, Subsystem = [], Name = ''up'',
                                    Help = ''Were the NVML queries successful?''\<rparr>,
                    gauges = Map.empty,
                    devices = devs\<rparr>"
    by (simp add: NewExporter_def)
  show "devices e = devs" unfolding e by (simp add: gaugeMetrics_def)
  show "series e m = []" unfolding e
    by (simp add: gaugeMetrics_def series_def NewGaugeVec_def)
  show "schema_ok e" unfolding e
    by (simp add: schema_ok_def gaugeMetrics_def NewGaugeVec_def NewGauge_def catalog_desc_def
        up_desc_def BuildFQName_def DefaultNamespace_def)
qed

lemma reachable_schema_ok: "reachable e \<Longrightarrow> schema_ok e"
proof (induction rule: reachable.induct)
  case (reachable_New devs e)
  then show ?case by (rule NewExporter_schema_ok)
next
  case (reachable_Collect e ks1 ks2 nvml e' out)
  from Collect_result[OF reachable_Collect.IH reachable_Collect.hyps(2), of nvml ks2]
    reachable_Collect.hyps(4)
  show ?case by (auto simp: cycle_post_def)
qed

lemma reachable_range_order: "reachable e \<Longrightarrow> range_order metric_names e"
  by (simp add: range_order_def distinct_metric_names schema_ok_dom reachable_schema_ok)

subsection \<open>Which queries succeed, and what the series hold afterwards\<close>

lemma ok_level_le5: "ok_level C d \<le> 5"
  by (simp add: ok_level_def)

lemma query_ok_range: "query_ok C d t \<Longrightarrow> 1 \<le> t \<and> t \<le> 5"
  by (auto simp: query_ok_def split: if_splits)

lemma ok_level_iff: "s \<le> ok_level C d \<longleftrightarrow> (\<forall>t\<in>{1..s}. query_ok C d t)"
proof
  assume a: "s \<le> ok_level C d"
  show "\<forall>t\<in>{1..s}. query_ok C d t"
  proof
    fix t assume "t \<in> {1..s}"
    with a have t: "1 \<le> t" "t \<le> ok_level C d" by simp_all
    with ok_level_le5[of C d] have "t = 1 \<or> t = 2 \<or> t = 3 \<or> t = 4 \<or> t = 5" by arith
    with t(2) show "query_ok C d t"
      by (cases C d rule: ok_level_cases) auto
  qed
next
  assume a: "\<forall>t\<in>{1..s}. query_ok C d t"
  show "s \<le> ok_level C d"
  proof (rule ccontr)
    assume "\<not> s \<le> ok_level C d"
    then have l: "ok_level C d + 1 \<in> {1..s}" by simp
    with a have q: "query_ok C d (ok_level C d + 1)" by blast
    then show False
      by (cases C d rule: ok_level_cases) (simp_all add: query_ok_def)
  qed
qed

lemma ok_level_5_iff: "ok_level C d = 5 \<longleftrightarrow> (\<forall>t\<in>{1..5}. query_ok C d t)"
  using ok_level_iff[of 5 C d] ok_level_le5[of C d] by auto

lemma ok_level_fail:
  assumes "1 \<le> s" "s \<le> 5" "\<forall>t\<in>{1..<s}. query_ok C d t" "\<not> query_ok C d s"
  shows "ok_level C d = s - 1"
proof -
  from assms(1,3) have "\<forall>t\<in>{1..s - 1}. query_ok C d t" by auto
  then have a: "s - 1 \<le> ok_level C d" by (simp add: ok_level_iff)
  have "\<not> s \<le> ok_level C d"
  proof
    assume "s \<le> ok_level C d"
    with assms(1) have "query_ok C d s" by (simp add: ok_level_iff)
    with assms(4) show False by simp
  qed
  with a show ?thesis by simp
qed

lemma reached_iff:
  "i < length devs \<Longrightarrow>
   reached nvml idx devs i s \<longleftrightarrow>
     (\<forall>j<i. ok_level (nvml (idx + j)) (devs ! j) = 5) \<and> s \<le> ok_level (nvml (idx + i)) (devs ! i)"
proof (induction devs arbitrary: idx i)
  case Nil
  then show ?case by simp
next
  case (Cons d ds)
  show ?case
  proof (cases i)
    case 0
    then show ?thesis by simp
  next
    case (Suc i')
    with Cons.prems have "i' < length ds" by simp
    from Cons.IH[OF this, of "Suc idx"] Suc show ?thesis
      by (simp add: all_less_Suc_split)
  qed
qed

lemma count_distinct_keys:
  "distinct (map fst al) \<Longrightarrow>
   length (filter (\<lambda>p. fst p = k) al) = (if map_of al k = None then 0 else 1)"
proof (induction al)
  case Nil
  then show ?case by simp
next
  case (Cons p ps)
  then have "fst p = k \<Longrightarrow> map_of ps k = None"
    by (auto simp: map_of_eq_None_iff)
  with Cons show ?case by (cases p) auto
qed

text \<open>What a poll cycle leaves in one series, read off \<open>cycle_post\<close>.\<close>

lemma cycle_post_count:
  assumes "cycle_post nvml e e'" "m \<in> set metric_names" "i < length (devices e)"
  shows "sample_count e' m (labels_of i (devices e ! i)) =
           (if (\<forall>j<i. ok_level (nvml j) (devices e ! j) = 5) \<and>
               step_of m \<le> ok_level (nvml i) (devices e ! i) then 1 else 0)"
proof -
  let ?devs = "devices e" and ?al = "series e' m"
  from assms(1,2) have sp: "series_post nvml 0 ?devs m [] ?al"
    by (simp add: cycle_post_def)
  then have D: "distinct (map fst ?al)" by (simp add: series_post_def)
  show ?thesis
  proof (cases "reached nvml 0 ?devs i (step_of m)")
    case True
    with sp assms(3) have "map_of ?al (labels_of i (?devs ! i)) \<noteq> None"
      by (auto simp: series_post_def)
    with True assms(3) D show ?thesis
      by (simp add: sample_count_def count_distinct_keys reached_iff)
  next
    case False
    have "\<forall>j<length ?devs. reached nvml 0 ?devs j (step_of m) \<longrightarrow>
            labels_of i (?devs ! i) \<noteq> labels_of (0 + j) (?devs ! j)"
      using False labels_of_inj by fastforce
    with sp have "map_of ?al (labels_of i (?devs ! i)) = None"
      unfolding series_post_def by (metis map_of.simps(1))
    with False assms(3) D show ?thesis
      by (simp add: sample_count_def count_distinct_keys reached_iff)
  qed
qed

lemma cycle_post_value:
  assumes "cycle_post nvml e e'" "m \<in> set metric_names" "i < length (devices e)"
    "\<forall>j<i. ok_level (nvml j) (devices e ! j) = 5"
    "step_of m \<le> ok_level (nvml i) (devices e ! i)"
  shows "map_of (series e' m) (labels_of i (devices e ! i)) =
           Some (reading (nvml i) (devices e ! i) m)"
proof -
  from assms(1,2) have sp: "series_post nvml 0 (devices e) m [] (series e' m)"
    by (simp add: cycle_post_def)
  from assms(3-5) have "reached nvml 0 (devices e) i (step_of m)"
    by (simp add: reached_iff)
  with sp assms(3) show ?thesis by (auto simp: series_post_def)
qed

lemma cycle_post_written:
  assumes "cycle_post nvml e e'" "m \<in> set metric_names" "(lvs, v) \<in> set (series e' m)"
  shows "\<exists>i<length (devices e). lvs = labels_of i (devices e ! i) \<and>
           v = reading (nvml i) (devices e ! i) m \<and>
           (\<forall>j<i. ok_level (nvml j) (devices e ! j) = 5) \<and>
           step_of m \<le> ok_level (nvml i) (devices e ! i)"
proof -
  let ?devs = "devices e" and ?al = "series e' m"
  from assms(1,2) have sp: "series_post nvml 0 ?devs m [] ?al"
    by (simp add: cycle_post_def)
  then have D: "distinct (map fst ?al)" by (simp add: series_post_def)
  with assms(3) have mv: "map_of ?al lvs = Some v" by simp
  have "\<not> (\<forall>j<length ?devs. reached nvml 0 ?devs j (step_of m) \<longrightarrow>
            lvs \<noteq> labels_of (0 + j) (?devs ! j))"
  proof
    assume "\<forall>j<length ?devs. reached nvml 0 ?devs j (step_of m) \<longrightarrow>
            lvs \<noteq> labels_of (0 + j) (?devs ! j)"
    with sp have "map_of ?al lvs = map_of [] lvs" unfolding series_post_def by blast
    with mv show False by simp
  qed
  then obtain i where i: "i < length ?devs" "reached nvml 0 ?devs i (step_of m)"
    "lvs = labels_of i (?devs ! i)" by auto
  with sp have "map_of ?al lvs = Some (reading (nvml i) (?devs ! i) m)"
    by (auto simp: series_post_def)
  with mv i show ?thesis by (auto simp: reached_iff)
qed

lemma reading_power_watts: "reading C s ''power_watts'' = float64 (fst (GetPowerUsage C s))"
  by (simp add: reading_def)

lemma reading_temperature:
  "reading C s ''temperature_celsius'' = float64 (fst (snd (GetTemperature C s)))"
  "reading C s ''temperature_fahrenheit'' = float64 (fst (GetTemperature C s))"
  by (simp_all add: reading_def)

lemma query_ok_answer:
  "nvmlDeviceGetTemperature C (Device_d s) = (NVML_SUCCESS, tempc) \<Longrightarrow> query_ok C s 2"
  "nvmlDeviceGetPowerUsage C (Device_d s) = (NVML_SUCCESS, mw) \<Longrightarrow> query_ok C s 3"
  by (simp_all add: query_ok_def)

subsection \<open>Answers that the cycle never asks for\<close>

lemma same_answers_query_ok:
  "same_answers s C C' dev \<Longrightarrow> 1 \<le> t \<Longrightarrow> t \<le> s \<Longrightarrow> query_ok C' dev t = query_ok C dev t"
  by (auto simp: same_answers_def query_ok_def)

lemma same_answers_reading:
  "same_answers s C C' dev \<Longrightarrow> step_of m \<le> s \<Longrightarrow> reading C' dev m = reading C dev m"
  by (auto simp: same_answers_def reading_def step_of_def GetUtilization_def GetTemperature_def
      GetPowerUsage_def GetFanSpeed_def GetMemoryInfo_def callGetIntFunc_def split: if_splits)

lemma loop_body_same:
  assumes "schema_ok e" "same_answers s C C' dev" "1 \<le> s" "s \<le> 5"
    "s = 5 \<or> \<not> query_ok C dev s"
  shows "loop_body C' idx dev e = loop_body C idx dev e"
proof -
  have q: "\<And>t. 1 \<le> t \<Longrightarrow> t \<le> s \<Longrightarrow> query_ok C' dev t = query_ok C dev t"
    using assms(2) by (rule same_answers_query_ok)
  have r: "\<And>m. step_of m \<le> s \<Longrightarrow> reading C' dev m = reading C dev m"
    using assms(2) by (rule same_answers_reading)
  from assms(3,4) consider "s = 1" | "s = 2" | "s = 3" | "s = 4" | "s = 5" by arith
  then show ?thesis
  proof cases
    case 1
    with assms(5) q[of 1] show ?thesis
      by (simp add: loop_body_unfold[OF assms(1)] del: One_nat_def)
  next
    case 2
    with assms(5) q[of 1] q[of 2] r show ?thesis
      by (simp add: loop_body_unfold[OF assms(1)] step_of_def Let_def del: One_nat_def)
  next
    case 3
    with assms(5) q[of 1] q[of 2] q[of 3] r show ?thesis
      by (simp add: loop_body_unfold[OF assms(1)] step_of_def Let_def del: One_nat_def)
  next
    case 4
    with assms(5) q[of 1] q[of 2] q[of 3] q[of 4] r show ?thesis
      by (simp add: loop_body_unfold[OF assms(1)] step_of_def Let_def del: One_nat_def)
  next
    case 5
    with q[of 1] q[of 2] q[of 3] q[of 4] q[of 5] r show ?thesis
      by (simp add: loop_body_unfold[OF assms(1)] step_of_def Let_def del: One_nat_def)
  qed
qed

lemma range_devices_same:
  assumes "schema_ok e" "k < length devs"
    "\<forall>i<k. same_answers 5 (nvml (idx + i)) (nvml' (idx + i)) (devs ! i)"
    "same_answers s (nvml (idx + k)) (nvml' (idx + k)) (devs ! k)"
    "1 \<le> s" "s \<le> 5" "\<not> query_ok (nvml (idx + k)) (devs ! k) s"
  shows "range_devices nvml' idx devs e = range_devices nvml idx devs e"
  using assms
proof (induction devs arbitrary: idx k e)
  case Nil
  then show ?case by simp
next
  case (Cons d ds)
  from loop_body_result[OF Cons.prems(1), of "nvml idx" idx d] obtain e1 where
    b: "loop_body (nvml idx) idx d e =
          Some (if ok_level (nvml idx) d = 5 then Continue e1 else Return e1)"
    and s1: "schema_ok e1" by (auto simp: body_post_def)
  show ?case
  proof (cases k)
    case 0
    with Cons.prems have sa: "same_answers s (nvml idx) (nvml' idx) d"
      and f: "\<not> query_ok (nvml idx) d s" by simp_all
    from loop_body_same[OF Cons.prems(1) sa Cons.prems(5,6)] f
    have eq: "loop_body (nvml' idx) idx d e = loop_body (nvml idx) idx d e" by simp
    from f Cons.prems(5,6) have "ok_level (nvml idx) d \<noteq> 5"
      unfolding ok_level_5_iff by force
    with b eq show ?thesis by simp
  next
    case (Suc k')
    with Cons.prems have sa: "same_answers 5 (nvml idx) (nvml' idx) d"
      by (auto simp: all_less_Suc_split)
    from loop_body_same[OF Cons.prems(1) sa]
    have eq: "loop_body (nvml' idx) idx d e = loop_body (nvml idx) idx d e" by simp
    from Suc Cons.prems have
      "range_devices nvml' (Suc idx) ds e1 = range_devices nvml (Suc idx) ds e1"
      by (intro Cons.IH[OF s1, of k']) (simp_all add: all_less_Suc_split)
    with b eq show ?thesis by simp
  qed
qed

lemma Collect_same:
  assumes "schema_ok e" "k < length (devices e)"
    "\<forall>i<k. same_answers 5 (nvml i) (nvml' i) (devices e ! i)"
    "same_answers s (nvml k) (nvml' k) (devices e ! k)"
    "1 \<le> s" "s \<le> 5" "\<not> query_ok (nvml k) (devices e ! k) s"
  shows "Collect nvml' ks1 ks2 e = Collect nvml ks1 ks2 e"
proof -
  have "range_devices nvml' 0 (devices e) (cleared ks1 e) =
        range_devices nvml 0 (devices e) (cleared ks1 e)"
    using assms by (intro range_devices_same[where k=k and s=s] cleared_schema_ok) simp_all
  then show ?thesis by (simp add: Collect_unfold)
qed

subsection \<open>The example inputs\<close>

lemma example_exporter_New:
  "NewExporter (devs, None) = (Some (example_exporter devs), None)"
  by (simp add: example_exporter_def NewExporter_def)

lemma example_exporter_reachable: "reachable (example_exporter devs)"
  using example_exporter_New by (rule reachable_New)

lemma example_exporter_devices: "devices (example_exporter devs) = devs"
  using example_exporter_New by (rule NewExporter_schema_ok)

lemma example_driver_ok: "1 \<le> t \<Longrightarrow> t \<le> 5 \<Longrightarrow> query_ok example_driver d t"
proof -
  assume "1 \<le> t" "t \<le> 5"
  then consider "t = 1" | "t = 2" | "t = 3" | "t = 4" | "t = 5" by arith
  then show ?thesis
    by cases (simp_all add: query_ok_def example_driver_def)
qed

lemma power_failing_driver_ok: "1 \<le> t \<Longrightarrow> t < 3 \<Longrightarrow> query_ok power_failing_driver d t"
proof -
  assume "1 \<le> t" "t < 3"
  then consider "t = 1" | "t = 2" by arith
  then show ?thesis
    by cases (simp_all add: query_ok_def example_driver_def power_failing_driver_def)
qed

lemma power_failing_driver_fails: "\<not> query_ok power_failing_driver d 3"
  by (simp add: query_ok_def power_failing_driver_def)

section \<open>The properties of the poll cycle\<close>

text \<open>
  Claim C1. In a poll cycle let device \<open>k\<close> be the first to fail, at query \<open>s\<close> of the
  sequence utilization, temperature, power, fan speed, memory info: every query of the
  devices before \<open>k\<close> succeeds, the queries of device \<open>k\<close> before \<open>s\<close> succeed and its
  query \<open>s\<close> does not. Then \<open>Collect\<close> returns, \<open>up\<close> is 0, every series holds exactly
  one sample for each device before \<open>k\<close>, for device \<open>k\<close> exactly one sample in the series
  of the queries before \<open>s\<close> and none in the others, and no sample for a device after
  \<open>k\<close>. The cycle ends at the failing query: whatever the driver would answer to a later
  query does not change the result.
\<close>

theorem first_failure_cycle:
  assumes "reachable e" "range_order ks1 e" "range_order ks2 e"
    and "k < length (devices e)" and "1 \<le> s" and "s \<le> 5"
    and "\<forall>i<k. \<forall>t\<in>{1..5}. query_ok (nvml i) (devices e ! i) t"
    and "\<forall>t\<in>{1..<s}. query_ok (nvml k) (devices e ! k) t"
    and "\<not> query_ok (nvml k) (devices e ! k) s"
  shows "\<exists>e' out. Collect nvml ks1 ks2 e = Some (e', out) \<and>
           gauge_val (up e') = float64 0 \<and>
           (\<forall>m\<in>set metric_names.
              (\<forall>i<k. sample_count e' m (labels_of i (devices e ! i)) = 1) \<and>
              sample_count e' m (labels_of k (devices e ! k)) = (if step_of m < s then 1 else 0) \<and>
              (\<forall>i. k < i \<and> i < length (devices e) \<longrightarrow>
                   sample_count e' m (labels_of i (devices e ! i)) = 0)) \<and>
           (\<forall>nvml'. (\<forall>i<k. same_answers 5 (nvml i) (nvml' i) (devices e ! i)) \<and>
                    same_answers s (nvml k) (nvml' k) (devices e ! k) \<longrightarrow>
                    Collect nvml' ks1 ks2 e = Some (e', out))"
proof -
  let ?devs = "devices e"
  from assms(1) have sch: "schema_ok e" by (rule reachable_schema_ok)
  from Collect_result[OF sch assms(2), of nvml ks2] obtain e' where
    c: "Collect nvml ks1 ks2 e = Some (e', Collect_range ks2 e' @ [Gauge_Collect (up e')])"
    and p: "cycle_post nvml e e'" by blast
  have before: "\<And>i. i < k \<Longrightarrow> ok_level (nvml i) (?devs ! i) = 5"
    using assms(7) by (simp add: ok_level_5_iff)
  have at: "ok_level (nvml k) (?devs ! k) = s - 1"
    using assms(5,6,8,9) by (rule ok_level_fail)
  with assms(5,6) have not5: "ok_level (nvml k) (?devs ! k) \<noteq> 5" by simp
  from p assms(4) not5 have u: "gauge_val (up e') = float64 0"
    by (auto simp: cycle_post_def)
  have cnt: "(\<forall>i<k. sample_count e' m (labels_of i (?devs ! i)) = 1) \<and>
          sample_count e' m (labels_of k (?devs ! k)) = (if step_of m < s then 1 else 0) \<and>
          (\<forall>i. k < i \<and> i < length ?devs \<longrightarrow> sample_count e' m (labels_of i (?devs ! i)) = 0)"
    if m: "m \<in> set metric_names" for m
  proof (intro conjI allI impI)
    fix i assume "i < k"
    with assms(4) before step_of_le5[of m] show "sample_count e' m (labels_of i (?devs ! i)) = 1"
      by (simp add: cycle_post_count[OF p m])
  next
    from assms(4,5) before at
    show "sample_count e' m (labels_of k (?devs ! k)) = (if step_of m < s then 1 else 0)"
      by (auto simp: cycle_post_count[OF p m])
  next
    fix i assume "k < i \<and> i < length ?devs"
    with not5 show "sample_count e' m (labels_of i (?devs ! i)) = 0"
      by (auto simp: cycle_post_count[OF p m])
  qed
  have same: "Collect nvml' ks1 ks2 e = Some (e', Collect_range ks2 e' @ [Gauge_Collect (up e')])"
    if "(\<forall>i<k. same_answers 5 (nvml i) (nvml' i) (?devs ! i)) \<and>
        same_answers s (nvml k) (nvml' k) (?devs ! k)" for nvml'
    using Collect_same[where nvml=nvml and nvml'=nvml' and k=k and s=s, OF sch assms(4) _ _ assms(5,6,9)] that c
    by simp
  from c u cnt same show ?thesis by blast
qed

theorem first_failure_cycle_witness:
  "gauge_val (up (fst (the (Collect failing_nvml metric_names metric_names
       (example_exporter [example_device, second_device, third_device]))))) = float64 0 \<and>
   sample_count (fst (the (Collect failing_nvml metric_names metric_names
       (example_exporter [example_device, second_device, third_device]))))
     ''memory_used'' [''0'', ''GPU-abc'', ''Test-GPU''] = 1 \<and>
   sample_count (fst (the (Collect failing_nvml metric_names metric_names
       (example_exporter [example_device, second_device, third_device]))))
     ''temperature_celsius'' [''1'', ''GPU-def'', ''Test-GPU''] = 1 \<and>
   sample_count (fst (the (Collect failing_nvml metric_names metric_names
       (example_exporter [example_device, second_device, third_device]))))
     ''power_watts'' [''1'', ''GPU-def'', ''Test-GPU''] = 0 \<and>
   sample_count (fst (the (Collect failing_nvml metric_names metric_names
       (example_exporter [example_device, second_device, third_device]))))
     ''gpu_percent'' [''2'', ''GPU-ghi'', ''Test-GPU''] = 0"
proof -
  let ?e = "example_exporter [example_device, second_device, third_device]"
  have r: "reachable ?e" by (rule example_exporter_reachable)
  have o: "range_order metric_names ?e" using r by (rule reachable_range_order)
  have d: "devices ?e = [example_device, second_device, third_device]"
    by (rule example_exporter_devices)
  have k: "1 < length (devices ?e)" by (simp add: d)
  have s1: "(1::nat) \<le> 3" and s2: "(3::nat) \<le> 5" by simp_all
  have q0: "\<forall>i<1. \<forall>t\<in>{1..5}. query_ok (failing_nvml i) (devices ?e ! i) t"
    by (simp add: failing_nvml_def example_driver_ok)
  have q1: "\<forall>t\<in>{1..<3}. query_ok (failing_nvml 1) (devices ?e ! 1) t"
    by (simp add: failing_nvml_def power_failing_driver_ok)
  have q2: "\<not> query_ok (failing_nvml 1) (devices ?e ! 1) 3"
    by (simp add: failing_nvml_def power_failing_driver_fails)
  from first_failure_cycle[OF r o o k s1 s2 q0 q1 q2] obtain e' out where
    c: "Collect failing_nvml metric_names metric_names ?e = Some (e', out)"
    and u: "gauge_val (up e') = float64 0"
    and s: "\<forall>m\<in>set metric_names.
              (\<forall>i<1. sample_count e' m (labels_of i (devices ?e ! i)) = 1) \<and>
              sample_count e' m (labels_of 1 (devices ?e ! 1)) = (if step_of m < 3 then 1 else 0) \<and>
              (\<forall>i. 1 < i \<and> i < length (devices ?e) \<longrightarrow>
                   sample_count e' m (labels_of i (devices ?e ! i)) = 0)"
    by blast
  have a: "sample_count e' ''memory_used'' (labels_of 0 (devices ?e ! 0)) = 1"
    using bspec[OF s names_mem(6)] by simp
  have b: "sample_count e' ''temperature_celsius'' (labels_of 1 (devices ?e ! 1)) = 1"
    using bspec[OF s names_mem(9)] by (simp add: step_of_def)
  have b': "sample_count e' ''power_watts'' (labels_of 1 (devices ?e ! 1)) = 0"
    using bspec[OF s names_mem(1)] by (simp add: step_of_def)
  have "1 < (2::nat) \<and> 2 < length (devices ?e)" by (simp add: d)
  with bspec[OF s names_mem(3)]
  have g: "sample_count e' ''gpu_percent'' (labels_of 2 (devices ?e ! 2)) = 0"
    by blast
  from a b b' g c u show ?thesis
    by (simp add: example_exporter_devices labels_of_def Itoa_digits example_device_def
        second_device_def third_device_def)
qed

text \<open>
  Claim C2. In a poll cycle in which every query of every enumerated device succeeds,
  \<open>up\<close> is 1 and each of the nine per-device series holds exactly one sample for each
  device, under the label values (index as a decimal string, UUID, name).
\<close>

theorem successful_cycle:
  assumes "reachable e" "range_order ks1 e" "range_order ks2 e"
    and "\<forall>i<length (devices e). \<forall>t\<in>{1..5}. query_ok (nvml i) (devices e ! i) t"
  shows "\<exists>e' out. Collect nvml ks1 ks2 e = Some (e', out) \<and>
           gauge_val (up e') = float64 1 \<and>
           (\<forall>m\<in>{''power_watts'', ''fan_speed'', ''gpu_percent'', ''memory_free'',
                  ''memory_total'', ''memory_used'', ''memory_percent'',
                  ''temperature_fahrenheit'', ''temperature_celsius''}.
              \<forall>i<length (devices e).
                sample_count e' m [Itoa i, DeviceUUID (devices e ! i), DeviceName (devices e ! i)] = 1)"
proof -
  let ?devs = "devices e"
  from assms(1) have sch: "schema_ok e" by (rule reachable_schema_ok)
  from Collect_result[OF sch assms(2), of nvml ks2] obtain e' where
    c: "Collect nvml ks1 ks2 e = Some (e', Collect_range ks2 e' @ [Gauge_Collect (up e')])"
    and p: "cycle_post nvml e e'" by blast
  have ok: "\<And>i. i < length ?devs \<Longrightarrow> ok_level (nvml i) (?devs ! i) = 5"
    using assms(4) by (simp add: ok_level_5_iff)
  from p ok have u: "gauge_val (up e') = float64 1"
    by (simp add: cycle_post_def)
  have "sample_count e' m [Itoa i, DeviceUUID (?devs ! i), DeviceName (?devs ! i)] = 1"
    if "m \<in> set metric_names" "i < length ?devs" for m i
    using cycle_post_count[OF p that] ok that(2) step_of_le5[of m]
    by (simp add: labels_of_def)
  then have "\<forall>m\<in>set metric_names. \<forall>i<length ?devs.
      sample_count e' m [Itoa i, DeviceUUID (?devs ! i), DeviceName (?devs ! i)] = 1"
    by blast
  then have "\<forall>m\<in>{''power_watts'', ''fan_speed'', ''gpu_percent'', ''memory_free'',
                  ''memory_total'', ''memory_used'', ''memory_percent'',
                  ''temperature_fahrenheit'', ''temperature_celsius''}.
              \<forall>i<length ?devs.
                sample_count e' m [Itoa i, DeviceUUID (?devs ! i), DeviceName (?devs ! i)] = 1"
    unfolding metric_names_eq by simp
  with c u show ?thesis by blast
qed

theorem successful_cycle_witness:
  "gauge_val (up (fst (the (Collect (\<lambda>_. example_driver) metric_names metric_names
       (example_exporter [example_device, second_device]))))) = float64 1 \<and>
   sample_count (fst (the (Collect (\<lambda>_. example_driver) metric_names metric_names
       (example_exporter [example_device, second_device]))))
     ''fan_speed'' [''1'', ''GPU-def'', ''Test-GPU''] = 1"
proof -
  let ?e = "example_exporter [example_device, second_device]"
  have r: "reachable ?e" by (rule example_exporter_reachable)
  have o: "range_order metric_names ?e" using r by (rule reachable_range_order)
  have q: "\<forall>i<length (devices ?e). \<forall>t\<in>{1..5}.
             query_ok ((\<lambda>_. example_driver) i) (devices ?e ! i) t"
    by (simp add: example_driver_ok)
  from successful_cycle[OF r o o q] obtain e' out where
    c: "Collect (\<lambda>_. example_driver) metric_names metric_names ?e = Some (e', out)"
    and u: "gauge_val (up e') = float64 1"
    and s: "\<forall>m\<in>{''power_watts'', ''fan_speed'', ''gpu_percent'', ''memory_free'',
                  ''memory_total'', ''memory_used'', ''memory_percent'',
                  ''temperature_fahrenheit'', ''temperature_celsius''}.
              \<forall>i<length (devices ?e).
                sample_count e' m [Itoa i, DeviceUUID (devices ?e ! i), DeviceName (devices ?e ! i)] = 1"
    by blast
  have l: "1 < length (devices ?e)" by (simp add: example_exporter_devices)
  from s have "\<forall>i<length (devices ?e). sample_count e' ''fan_speed''
                 [Itoa i, DeviceUUID (devices ?e ! i), DeviceName (devices ?e ! i)] = 1"
    by (rule bspec) simp
  from this[rule_format, OF l]
  have "sample_count e' ''fan_speed''
                 [Itoa 1, DeviceUUID (devices ?e ! 1), DeviceName (devices ?e ! 1)] = 1" .
  then have "sample_count e' ''fan_speed'' [''1'', ''GPU-def'', ''Test-GPU''] = 1"
    by (simp add: example_exporter_devices Itoa_digits second_device_def)
  with c u show ?thesis by simp
qed

text \<open>
  Claim C3. A poll cycle first clears every series: after the loop that resets the
  vectors, no series holds a sample. Hence every sample that a series holds after
  \<open>Collect\<close> was written in this cycle: it carries the label values of an enumerated
  device that the cycle reached, it comes from a query of this cycle that succeeded, and
  its value is the reading of that query.
\<close>

theorem no_stale_samples:
  assumes "reachable e" "range_order ks1 e" "range_order ks2 e"
  shows "(\<forall>m. series (Reset_range ks1 e) m = []) \<and>
         (\<exists>e' out. Collect nvml ks1 ks2 e = Some (e', out) \<and>
            (\<forall>m lvs v. (lvs, v) \<in> set (series e' m) \<longrightarrow>
               (\<exists>i<length (devices e).
                  lvs = labels_of i (devices e ! i) \<and>
                  v = reading (nvml i) (devices e ! i) m \<and>
                  (\<forall>j<i. \<forall>t\<in>{1..5}. query_ok (nvml j) (devices e ! j) t) \<and>
                  (\<forall>t\<in>{1..step_of m}. query_ok (nvml i) (devices e ! i) t))))"
proof -
  from assms(1) have sch: "schema_ok e" by (rule reachable_schema_ok)
  from Collect_result[OF sch assms(2), of nvml ks2] obtain e' where
    c: "Collect nvml ks1 ks2 e = Some (e', Collect_range ks2 e' @ [Gauge_Collect (up e')])"
    and p: "cycle_post nvml e e'" by blast
  from p have sch': "schema_ok e'" by (simp add: cycle_post_def)
  have w: "\<exists>i<length (devices e).
                  lvs = labels_of i (devices e ! i) \<and>
                  v = reading (nvml i) (devices e ! i) m \<and>
                  (\<forall>j<i. \<forall>t\<in>{1..5}. query_ok (nvml j) (devices e ! j) t) \<and>
                  (\<forall>t\<in>{1..step_of m}. query_ok (nvml i) (devices e ! i) t)"
    if s: "(lvs, v) \<in> set (series e' m)" for m lvs v
  proof -
    have m: "m \<in> set metric_names"
    proof (rule ccontr)
      assume "m \<notin> set metric_names"
      with sch' have "series e' m = []" by (rule series_outside_catalog)
      with s show False by simp
    qed
    from cycle_post_written[OF p m s] show ?thesis
      by (simp add: ok_level_5_iff ok_level_iff)
  qed
  from assms(2) have "\<forall>m. series (Reset_range ks1 e) m = []"
    by (simp add: Reset_range_series)
  with c w show ?thesis by blast
qed

theorem no_stale_samples_witness:
  "sample_count (fst (the (Collect (\<lambda>_. example_driver) metric_names metric_names
       (example_exporter [example_device]))))
     ''power_watts'' [''0'', ''GPU-abc'', ''Test-GPU''] = 1 \<and>
   series (fst (the (Collect (\<lambda>_. power_failing_driver) metric_names metric_names
       (fst (the (Collect (\<lambda>_. example_driver) metric_names metric_names
          (example_exporter [example_device])))))))
     ''power_watts'' = []"
proof -
  let ?e0 = "example_exporter [example_device]"
  have r0: "reachable ?e0" by (rule example_exporter_reachable)
  have o0: "range_order metric_names ?e0" using r0 by (rule reachable_range_order)
  from Collect_result[OF reachable_schema_ok[OF r0] o0, of "\<lambda>_. example_driver" metric_names]
  obtain e1 out1 where
    c1: "Collect (\<lambda>_. example_driver) metric_names metric_names ?e0 = Some (e1, out1)"
    and p1: "cycle_post (\<lambda>_. example_driver) ?e0 e1" by blast
  have "ok_level example_driver example_device = 5"
    by (simp add: ok_level_5_iff example_driver_ok)
  with cycle_post_count[OF p1 names_mem(1), of 0]
  have stale: "sample_count e1 ''power_watts'' [''0'', ''GPU-abc'', ''Test-GPU''] = 1"
    by (simp add: example_exporter_devices step_of_def labels_of_def Itoa_digits
        example_device_def)
  have r1: "reachable e1" using r0 o0 o0 c1 by (rule reachable_Collect)
  have o1: "range_order metric_names e1" using r1 by (rule reachable_range_order)
  from p1 have d1: "devices e1 = [example_device]"
    by (simp add: cycle_post_def example_exporter_devices)
  from no_stale_samples[OF r1 o1 o1, of "\<lambda>_. power_failing_driver"] obtain e2 out2 where
    c2: "Collect (\<lambda>_. power_failing_driver) metric_names metric_names e1 = Some (e2, out2)"
    and w: "\<forall>m lvs v. (lvs, v) \<in> set (series e2 m) \<longrightarrow>
               (\<exists>i<length (devices e1).
                  lvs = labels_of i (devices e1 ! i) \<and>
                  v = reading power_failing_driver (devices e1 ! i) m \<and>
                  (\<forall>j<i. \<forall>t\<in>{1..5}. query_ok power_failing_driver (devices e1 ! j) t) \<and>
                  (\<forall>t\<in>{1..step_of m}. query_ok power_failing_driver (devices e1 ! i) t))"
    by blast
  have "series e2 ''power_watts'' = []"
  proof (cases "series e2 ''power_watts''")
    case Nil
    then show ?thesis .
  next
    case (Cons x xs)
    then have "(fst x, snd x) \<in> set (series e2 ''power_watts'')" by simp
    with w obtain i where
      "\<forall>t\<in>{1..step_of ''power_watts''}. query_ok power_failing_driver (devices e1 ! i) t"
      by blast
    then have "query_ok power_failing_driver (devices e1 ! i) 3"
      by (simp add: step_of_def)
    with power_failing_driver_fails show ?thesis by blast
  qed
  with stale c1 c2 show ?thesis by simp
qed

text \<open>
  Claim C4. Every call of \<open>Collect\<close>, whether or not the poll cycle ended early, sends
  first the current samples of the series and then, last, the sample of \<open>up\<close>; that
  sample, the one with the descriptor of \<open>up\<close>, is sent exactly once.
\<close>

theorem up_sent_once_and_last:
  assumes "reachable e" "range_order ks1 e" "range_order ks2 e"
  shows "\<exists>e' out. Collect nvml ks1 ks2 e = Some (e', out) \<and>
           out = Collect_range ks2 e' @ [Metric up_desc [] (gauge_val (up e'))] \<and>
           length (filter (\<lambda>x. metric_desc x = up_desc) out) = 1 \<and>
           set (Collect_range ks2 e') =
             {Metric (vec_desc vec) lvs v | m vec lvs v.
                gauges e' m = Some vec \<and> (lvs, v) \<in> set (children vec)}"
proof -
  from assms(1) have sch: "schema_ok e" by (rule reachable_schema_ok)
  from Collect_result[OF sch assms(2), of nvml ks2] obtain e' where
    c: "Collect nvml ks1 ks2 e = Some (e', Collect_range ks2 e' @ [Gauge_Collect (up e')])"
    and p: "cycle_post nvml e e'" by blast
  from p have sch': "schema_ok e'" by (simp add: cycle_post_def)
  then have g: "Gauge_Collect (up e') = Metric up_desc [] (gauge_val (up e'))"
    by (simp add: Gauge_Collect_def schema_ok_def)
  have once: "length (filter (\<lambda>x. metric_desc x = up_desc)
                 (Collect_range ks2 e' @ [Metric up_desc [] (gauge_val (up e'))])) = 1"
  proof -
    have "metric_desc (Metric up_desc [] (gauge_val (up e'))) = up_desc"
      by (simp add: metric_desc_def)
    then show ?thesis by (simp add: Collect_range_no_up[OF sch'])
  qed
  from assms(3) sch sch' have k: "set ks2 = dom (gauges e')"
    by (simp add: range_order_def schema_ok_dom)
  have all: "set (Collect_range ks2 e') =
             {Metric (vec_desc vec) lvs v | m vec lvs v.
                gauges e' m = Some vec \<and> (lvs, v) \<in> set (children vec)}"
  proof (intro set_eqI iffI)
    fix x assume "x \<in> set (Collect_range ks2 e')"
    then obtain m vec where "gauges e' m = Some vec" "x \<in> set (GaugeVec_Collect vec)"
      by (auto simp: set_Collect_range split: option.splits)
    then show "x \<in> {Metric (vec_desc vec) lvs v | m vec lvs v.
                gauges e' m = Some vec \<and> (lvs, v) \<in> set (children vec)}"
      by (auto simp: GaugeVec_Collect_def)
  next
    fix x assume "x \<in> {Metric (vec_desc vec) lvs v | m vec lvs v.
                gauges e' m = Some vec \<and> (lvs, v) \<in> set (children vec)}"
    then obtain m vec lvs v where x: "x = Metric (vec_desc vec) lvs v"
      and g: "gauges e' m = Some vec" and s: "(lvs, v) \<in> set (children vec)" by blast
    from s have "x \<in> set (GaugeVec_Collect vec)"
      unfolding x GaugeVec_Collect_def by force
    moreover from g k have "m \<in> set ks2" by auto
    ultimately show "x \<in> set (Collect_range ks2 e')"
      using g unfolding set_Collect_range by force
  qed
  from c g once all show ?thesis by simp
qed

theorem up_sent_once_and_last_witness:
  "last (snd (the (Collect (\<lambda>_. power_failing_driver) metric_names metric_names
       (example_exporter [example_device])))) = Metric up_desc [] (float64 0) \<and>
   length (filter (\<lambda>x. metric_desc x = up_desc)
     (snd (the (Collect (\<lambda>_. power_failing_driver) metric_names metric_names
       (example_exporter [example_device]))))) = 1"
proof -
  let ?e = "example_exporter [example_device]"
  have r: "reachable ?e" by (rule example_exporter_reachable)
  have o: "range_order metric_names ?e" using r by (rule reachable_range_order)
  from up_sent_once_and_last[OF r o o, of "\<lambda>_. power_failing_driver"] obtain e' out where
    c: "Collect (\<lambda>_. power_failing_driver) metric_names metric_names ?e = Some (e', out)"
    and l: "out = Collect_range metric_names e' @ [Metric up_desc [] (gauge_val (up e'))]"
    and n: "length (filter (\<lambda>x. metric_desc x = up_desc) out) = 1"
    by blast
  from Collect_result[OF reachable_schema_ok[OF r] o, of "\<lambda>_. power_failing_driver" metric_names]
    c have p: "cycle_post (\<lambda>_. power_failing_driver) ?e e'" by auto
  have "ok_level power_failing_driver example_device \<noteq> 5"
    using power_failing_driver_fails[of example_device] by (auto simp: ok_level_5_iff)
  with p have "gauge_val (up e') = float64 0"
    by (simp add: cycle_post_def example_exporter_devices)
  with c l n show ?thesis by simp
qed

text \<open>
  Claim C6. In every state the exporter can be in, after any number of calls of
  \<open>Collect\<close> whatever their outcome, \<open>Describe\<close> sends the same descriptors: that of \<open>up\<close>
  and one for each entry of the catalog.
\<close>

theorem Describe_stable:
  assumes "reachable e" "range_order ks e"
  shows "set (Describe ks e) = insert up_desc (catalog_desc ` set gaugeMetrics) \<and>
         length (Describe ks e) = Suc (length gaugeMetrics) \<and>
         hd (Describe ks e) = up_desc"
proof -
  from assms(1) have sch: "schema_ok e" by (rule reachable_schema_ok)
  from assms(2) sch have k: "set ks = set metric_names" "distinct ks"
    by (simp_all add: range_order_def schema_ok_dom)
  from assms(2) have "set ks \<subseteq> dom (gauges e)" by (simp add: range_order_def)
  then have d: "Describe ks e = gauge_desc (up e) # map (\<lambda>k. vec_desc (the (gauges e k))) ks"
    by (simp add: Describe_def Describe_range_map)
  from sch have u: "gauge_desc (up e) = up_desc" by (simp add: schema_ok_def)
  from k distinct_metric_names have "length ks = length metric_names"
    by (metis distinct_card)
  then have l: "length ks = length gaugeMetrics" by (simp add: metric_names_def)
  from d u k(1) l schema_ok_descs[OF sch] show ?thesis by simp
qed

theorem Describe_stable_witness:
  "set (Describe metric_names
     (fst (the (Collect (\<lambda>_. power_failing_driver) metric_names metric_names
        (example_exporter [example_device]))))) =
   insert up_desc (catalog_desc ` set gaugeMetrics) \<and>
   set (Describe metric_names (example_exporter [example_device])) =
   insert up_desc (catalog_desc ` set gaugeMetrics)"
proof -
  let ?e = "example_exporter [example_device]"
  have r: "reachable ?e" by (rule example_exporter_reachable)
  have o: "range_order metric_names ?e" using r by (rule reachable_range_order)
  from Collect_result[OF reachable_schema_ok[OF r] o, of "\<lambda>_. power_failing_driver" metric_names]
  obtain e1 out1 where
    c1: "Collect (\<lambda>_. power_failing_driver) metric_names metric_names ?e = Some (e1, out1)"
    by blast
  have r1: "reachable e1" using r o o c1 by (rule reachable_Collect)
  have o1: "range_order metric_names e1" using r1 by (rule reachable_range_order)
  from Describe_stable[OF r1 o1] Describe_stable[OF r o] c1 show ?thesis by simp
qed

text \<open>
  Claim C8. When the power query of a device is made in a poll cycle and the driver
  answers it with \<open>NVML_SUCCESS\<close> and \<open>mw\<close> milliwatts, the sample that the cycle leaves
  in the series \<open>power_watts\<close> for that device is \<open>mw / 1000\<close> with the quotient truncated.
  A reading of 125500 milliwatts is published as 125 watts.
\<close>

theorem power_watts_published:
  assumes "reachable e" "range_order ks1 e" "range_order ks2 e"
    and "i < length (devices e)"
    and "\<forall>j<i. \<forall>t\<in>{1..5}. query_ok (nvml j) (devices e ! j) t"
    and "\<forall>t\<in>{1..2}. query_ok (nvml i) (devices e ! i) t"
    and "nvmlDeviceGetPowerUsage (nvml i) (Device_d (devices e ! i)) = (NVML_SUCCESS, mw)"
  shows "\<exists>e' out watts. Collect nvml ks1 ks2 e = Some (e', out) \<and>
           GetPowerUsage (nvml i) (devices e ! i) = (watts, None) \<and>
           sint watts = uint mw sdiv 1000 \<and>
           map_of (series e' ''power_watts'') (labels_of i (devices e ! i)) =
             Some (float64 watts)"
proof -
  let ?dev = "devices e ! i" and ?watts = "word_of_int (uint mw sdiv 1000) :: go_int"
  from assms(1) have sch: "schema_ok e" by (rule reachable_schema_ok)
  from Collect_result[OF sch assms(2), of nvml ks2] obtain e' where
    c: "Collect nvml ks1 ks2 e = Some (e', Collect_range ks2 e' @ [Gauge_Collect (up e')])"
    and p: "cycle_post nvml e e'" by blast
  have g: "GetPowerUsage (nvml i) ?dev = (?watts, None)"
    using assms(7) by (rule GetPowerUsage_success)
  have before: "\<forall>j<i. ok_level (nvml j) (devices e ! j) = 5"
    using assms(5) by (simp add: ok_level_5_iff)
  have "\<forall>t\<in>{1..3}. query_ok (nvml i) ?dev t"
  proof
    fix t :: nat assume "t \<in> {1..3}"
    then have "t \<in> {1..2} \<or> t = 3" by auto
    with assms(6) query_ok_answer(2)[OF assms(7)] show "query_ok (nvml i) ?dev t" by blast
  qed
  then have "step_of ''power_watts'' \<le> ok_level (nvml i) ?dev"
    by (simp add: ok_level_iff step_of_def)
  from cycle_post_value[OF p names_mem(1) assms(4) before this] g
  have "map_of (series e' ''power_watts'') (labels_of i ?dev) = Some (float64 ?watts)"
    by (simp add: reading_power_watts)
  with c g watts_sint[of mw] show ?thesis by blast
qed

theorem power_watts_published_witness:
  "map_of (series (fst (the (Collect (\<lambda>_. example_driver) metric_names metric_names
       (example_exporter [example_device])))) ''power_watts'')
     [''0'', ''GPU-abc'', ''Test-GPU''] = Some (float64 125)"
proof -
  let ?e = "example_exporter [example_device]"
  have r: "reachable ?e" by (rule example_exporter_reachable)
  have o: "range_order metric_names ?e" using r by (rule reachable_range_order)
  have i: "0 < length (devices ?e)" by (simp add: example_exporter_devices)
  have q0: "\<forall>j<0. \<forall>t\<in>{1..5}. query_ok ((\<lambda>_. example_driver) j) (devices ?e ! j) t" by simp
  have q1: "\<forall>t\<in>{1..2}. query_ok ((\<lambda>_. example_driver) 0) (devices ?e ! 0) t"
    by (simp add: example_driver_ok)
  have a: "nvmlDeviceGetPowerUsage ((\<lambda>_. example_driver) 0) (Device_d (devices ?e ! 0)) =
             (NVML_SUCCESS, 125500)"
    by (simp add: example_driver_def)
  from power_watts_published[OF r o o i q0 q1 a] obtain e' out watts where
    c: "Collect (\<lambda>_. example_driver) metric_names metric_names ?e = Some (e', out)"
    and g: "GetPowerUsage example_driver (devices ?e ! 0) = (watts, None)"
    and s: "sint watts = uint (125500 :: c_uint) sdiv 1000"
    and m: "map_of (series e' ''power_watts'') (labels_of 0 (devices ?e ! 0)) =
              Some (float64 watts)"
    by blast
  from s have "sint watts = sint (125 :: go_int)" by simp
  then have "watts = 125" by (simp only: word_eq_iff_signed[symmetric])
  with c m show ?thesis
    by (simp add: example_exporter_devices labels_of_def Itoa_digits example_device_def)
qed

text \<open>
  Claim C9 says that the temperature operation of the device layer returns the Celsius
  value alone and leaves Fahrenheit to the collector. The code does otherwise:
  \<open>Device.GetTemperature\<close> returns \<open>(tempF, tempC, err)\<close>. When the driver reads 70
  degrees Celsius, the device layer returns the Fahrenheit value 158 beside the Celsius
  value 70.
\<close>

theorem GetTemperature_returns_fahrenheit:
  "fst (GetTemperature example_driver example_device) = 158 \<and>
   fst (snd (GetTemperature example_driver example_device)) = 70"
  by (simp add: GetTemperature_def example_driver_def quo_def)

text \<open>
  Claim C9, amended. The temperature operation of the device layer returns both the
  Fahrenheit and the Celsius value, Fahrenheit being derived there as \<open>C * 9 / 5 + 32\<close>;
  the poll cycle publishes the two values as returned and derives neither.
\<close>

theorem temperature_published:
  assumes "reachable e" "range_order ks1 e" "range_order ks2 e"
    and "i < length (devices e)"
    and "\<forall>j<i. \<forall>t\<in>{1..5}. query_ok (nvml j) (devices e ! j) t"
    and "query_ok (nvml i) (devices e ! i) 1"
    and "nvmlDeviceGetTemperature (nvml i) (Device_d (devices e ! i)) = (NVML_SUCCESS, tempc)"
  shows "\<exists>e' out tempF tempC. Collect nvml ks1 ks2 e = Some (e', out) \<and>
           GetTemperature (nvml i) (devices e ! i) = (tempF, tempC, None) \<and>
           sint tempC = uint tempc \<and>
           sint tempF = uint tempc * 9 sdiv 5 + 32 \<and>
           map_of (series e' ''temperature_celsius'') (labels_of i (devices e ! i)) =
             Some (float64 tempC) \<and>
           map_of (series e' ''temperature_fahrenheit'') (labels_of i (devices e ! i)) =
             Some (float64 tempF)"
proof -
  let ?dev = "devices e ! i"
  let ?F = "word_of_int (uint tempc * 9 sdiv 5 + 32) :: go_int"
  let ?C = "ucast tempc :: go_int"
  from assms(1) have sch: "schema_ok e" by (rule reachable_schema_ok)
  from Collect_result[OF sch assms(2), of nvml ks2] obtain e' where
    c: "Collect nvml ks1 ks2 e = Some (e', Collect_range ks2 e' @ [Gauge_Collect (up e')])"
    and p: "cycle_post nvml e e'" by blast
  have g: "GetTemperature (nvml i) ?dev = (?F, ?C, None)"
    using assms(7) by (rule GetTemperature_success)
  have before: "\<forall>j<i. ok_level (nvml j) (devices e ! j) = 5"
    using assms(5) by (simp add: ok_level_5_iff)
  have "\<forall>t\<in>{1..2}. query_ok (nvml i) ?dev t"
  proof
    fix t :: nat assume "t \<in> {1..2}"
    then have "t = 1 \<or> t = 2" by auto
    with assms(6) query_ok_answer(1)[OF assms(7)] show "query_ok (nvml i) ?dev t" by blast
  qed
  then have l: "2 \<le> ok_level (nvml i) ?dev" by (simp add: ok_level_iff)
  then have lc: "step_of ''temperature_celsius'' \<le> ok_level (nvml i) ?dev"
    and lf: "step_of ''temperature_fahrenheit'' \<le> ok_level (nvml i) ?dev"
    by (simp_all add: step_of_def)
  from cycle_post_value[OF p names_mem(9) assms(4) before lc] g
  have mc: "map_of (series e' ''temperature_celsius'') (labels_of i ?dev) = Some (float64 ?C)"
    by (simp add: reading_temperature)
  from cycle_post_value[OF p names_mem(8) assms(4) before lf] g
  have mf: "map_of (series e' ''temperature_fahrenheit'') (labels_of i ?dev) = Some (float64 ?F)"
    by (simp add: reading_temperature del: of_int_add)
  from c g mc mf sint_ucast_32_64[of tempc] fahrenheit_sint[of tempc] show ?thesis by blast
qed

theorem temperature_published_witness:
  "map_of (series (fst (the (Collect (\<lambda>_. example_driver) metric_names metric_names
       (example_exporter [example_device])))) ''temperature_fahrenheit'')
     [''0'', ''GPU-abc'', ''Test-GPU''] =
     Some (float64 (fst (GetTemperature example_driver example_device)))"
proof -
  let ?e = "example_exporter [example_device]"
  have r: "reachable ?e" by (rule example_exporter_reachable)
  have o: "range_order metric_names ?e" using r by (rule reachable_range_order)
  have i: "0 < length (devices ?e)" by (simp add: example_exporter_devices)
  have q0: "\<forall>j<0. \<forall>t\<in>{1..5}. query_ok ((\<lambda>_. example_driver) j) (devices ?e ! j) t" by simp
  have q1: "query_ok ((\<lambda>_. example_driver) 0) (devices ?e ! 0) 1"
    by (simp add: example_driver_ok)
  have a: "nvmlDeviceGetTemperature ((\<lambda>_. example_driver) 0) (Device_d (devices ?e ! 0)) =
             (NVML_SUCCESS, 70)"
    by (simp add: example_driver_def)
  from temperature_published[OF r o o i q0 q1 a] obtain e' out tempF tempC where
    c: "Collect (\<lambda>_. example_driver) metric_names metric_names ?e = Some (e', out)"
    and g: "GetTemperature example_driver (devices ?e ! 0) = (tempF, tempC, None)"
    and m: "map_of (series e' ''temperature_fahrenheit'') (labels_of 0 (devices ?e ! 0)) =
              Some (float64 tempF)"
    by blast
  from g have "fst (GetTemperature example_driver example_device) = tempF"
    by (simp add: example_exporter_devices)
  with c m show ?thesis
    by (simp add: example_exporter_devices labels_of_def Itoa_digits example_device_def)
qed

text \<open>
  Claim C10. When no device was enumerated, every call of \<open>Collect\<close> returns; the poll
  cycle makes no query, so that the result does not depend on the driver; the only sample
  sent is that of \<open>up\<close>, with the value 1; and no series holds a sample.
\<close>

theorem Collect_no_devices:
  assumes "reachable e" "range_order ks1 e" "range_order ks2 e" "devices e = []"
  shows "\<exists>e'. (\<forall>nvml. Collect nvml ks1 ks2 e = Some (e', [Metric up_desc [] (float64 1)])) \<and>
           gauge_val (up e') = float64 1 \<and> (\<forall>m. series e' m = [])"
proof -
  let ?e' = "cleared ks1 e"
  from assms(1) have sch: "schema_ok e" by (rule reachable_schema_ok)
  then have sch': "schema_ok ?e'" by (rule cleared_schema_ok)
  have s: "\<And>m. series ?e' m = []" using assms(2) by (rule cleared_series)
  have "GaugeVec_Collect vec = []" if "gauges ?e' k = Some vec" for k vec
    using s[of k] that by (simp add: series_def GaugeVec_Collect_def)
  then have "set (Collect_range ks2 ?e') = {}"
    by (auto simp: set_Collect_range split: option.splits)
  then have n: "Collect_range ks2 ?e' = []" by simp
  from sch' have g: "Gauge_Collect (up ?e') = Metric up_desc [] (float64 1)"
    by (simp add: Gauge_Collect_def schema_ok_def cleared_simps)
  have "Collect nvml ks1 ks2 e = Some (?e', [Metric up_desc [] (float64 1)])" for nvml
    by (simp add: Collect_unfold assms(4) n g)
  with s cleared_simps(2)[of ks1 e] show ?thesis by blast
qed

theorem Collect_no_devices_witness:
  "Collect (\<lambda>_. power_failing_driver) metric_names metric_names (example_exporter []) =
     Collect (\<lambda>_. example_driver) metric_names metric_names (example_exporter []) \<and>
   snd (the (Collect (\<lambda>_. power_failing_driver) metric_names metric_names (example_exporter []))) =
     [Metric up_desc [] (float64 1)]"
proof -
  let ?e = "example_exporter []"
  have r: "reachable ?e" by (rule example_exporter_reachable)
  have o: "range_order metric_names ?e" using r by (rule reachable_range_order)
  have d: "devices ?e = []" by (rule example_exporter_devices)
  from Collect_no_devices[OF r o o d] obtain e' where
    "\<forall>nvml. Collect nvml metric_names metric_names ?e = Some (e', [Metric up_desc [] (float64 1)])"
    by blast
  then show ?thesis by simp
qed

end
